theory Spec2Isabelle
  imports Main
begin

section \<open>Characters, constants and library routines of edit.c\<close>

text \<open>
  A \<open>WCHAR\<close> code unit is modelled as a HOL \<^typ>\<open>char\<close>, a wide string as a
  \<^typ>\<open>string\<close>. The text of a \<open>Line\<close> is the list of its first \<open>len\<close> code units,
  so \<open>line.len\<close> is the length of the list. Lengths and positions (\<open>DWORD\<close>) are
  natural numbers; where the C code subtracts two of them the wrap-around at
  \<open>2^32\<close> is written out (\<open>dword_sub\<close>).
\<close>

abbreviation NUL :: char where "NUL \<equiv> CHR 0x00"
abbreviation TAB :: char where "TAB \<equiv> CHR 0x09"
abbreviation ESCAPE :: char where "ESCAPE \<equiv> CHR ''^''"
abbreviation CMDSEP :: char where "CMDSEP \<equiv> CHR 0x13"
abbreviation VARIABLE :: char where "VARIABLE \<equiv> CHR ''%''"
abbreviation QUOTE_CH :: char where "QUOTE_CH \<equiv> CHR 0x22"
abbreviation BACKSLASH :: char where "BACKSLASH \<equiv> CHR 0x5C"

definition BRACE_TERM :: string where "BRACE_TERM = [CHR '' '', TAB, CHR '','', CHR '';'', CHR ''+'']"
definition BRACE_STOP :: string where "BRACE_STOP = ''<|>&''"
definition BRACE_ESCAPE :: string where "BRACE_ESCAPE = ''{},^''"
definition DEF_TERM :: string where "DEF_TERM = [CHR '' '', TAB, CHR ''<'', CHR ''|'', CHR ''>'', CHR ''/'']"
definition VAR_ESCAPE :: string where "VAR_ESCAPE = ''%^''"
definition ARG_ESCAPE :: string where "ARG_ESCAPE = ''%*^''"

definition dword_sub :: "nat \<Rightarrow> nat \<Rightarrow> nat" where
  \<comment> \<open>\<open>a - b\<close> on two \<open>DWORD\<close>s (both below \<open>2^32\<close>).\<close>
  "dword_sub a b = (if b \<le> a then a - b else a + 4294967296 - b)"

definition isblank :: "char \<Rightarrow> bool" where
  "isblank ch = (ch = CHR '' '' \<or> ch = TAB)"

definition wcschr :: "string \<Rightarrow> char \<Rightarrow> bool" where
  \<comment> \<open>\<open>wcschr( s, c ) != NULL\<close>: the terminator of \<open>s\<close> is part of the searched string.\<close>
  "wcschr s c = (c \<in> set s \<or> c = NUL)"

definition towlower :: "char \<Rightarrow> char" where
  "towlower c = (let n = (of_char c :: nat) in if 65 \<le> n \<and> n \<le> 90 then char_of (n + 32) else c)"

definition at_nul :: "string \<Rightarrow> char" where
  \<comment> \<open>The code unit a pointer at the given text reads; past the end of a C string stands its terminator.\<close>
  "at_nul s = (case s of [] \<Rightarrow> NUL | c # _ \<Rightarrow> c)"

fun wcsnicmp :: "string \<Rightarrow> string \<Rightarrow> nat \<Rightarrow> int" where
  "wcsnicmp a b 0 = 0"
| "wcsnicmp a b (Suc n) =
     (let f = towlower (at_nul a); l = towlower (at_nul b)
      in if f \<noteq> l \<or> f = NUL then int (of_char f) - int (of_char l)
         else wcsnicmp (tl a) (tl b) n)"

section \<open>Data model\<close>

text \<open>The fields of \<open>Option\<close> (CMDread.h) that the modelled functions read.\<close>

record Option =
  silent :: bool
  disable_macro :: bool
  ignore_char :: char
  min_length :: nat
  opt_histsize :: nat

text \<open>
  A \<open>Define\<close> is a name with its \<open>LineList\<close>; the empty list of lines is the \<open>NULL\<close>
  line pointer. A list of definitions (\<open>sym_head\<close>, \<open>mac_head\<close>, \<open>assoc_head\<close>,
  \<open>macro_stk\<close>) is the singly linked list from its head.
\<close>

record Define =
  name :: string
  dline :: "string list"

text \<open>
  The globals of edit.c. The history ring is the list of its entries from
  \<open>history.next\<close> (oldest) to \<open>history.prev\<close> (most recent); the sentinel
  \<open>history\<close> itself, whose text is empty, is not in the list. \<open>mcmd\<close> is \<open>None\<close> for
  the \<open>NULL\<close> text pointer. \<open>heap\<close> lists the outcomes of the coming \<open>malloc\<close> and
  \<open>realloc\<close> calls (\<open>True\<close>: memory was obtained); when the list is used up every
  further allocation succeeds. \<open>beeps\<close> counts the calls of \<open>MessageBeep\<close>.
  \<open>env\<close> is the process environment (\<open>GetEnvironmentVariableW\<close>): the value of a
  variable, empty when it is not set. \<open>typed\<close> is what the user is going to type:
  each element is the text of a line as edited and whether it is ended with the
  key bound to \<open>Enter\<close> (\<open>True\<close>) or to \<open>Wipe\<close> (\<open>False\<close>). \<open>printed\<close> collects the
  texts written with \<open>printf\<close> and \<open>WriteConsoleW\<close>. \<open>cmdfile\<close> is the global \<open>file\<close>: \<open>None\<close> for the \<open>NULL\<close>
  file pointer; for an open command file it lists what is left to read, each
  element one buffer as \<open>fgets\<close> will return it (its newline, if any, included).
\<close>

record state =
  option :: Option
  line :: string
  max_sz :: nat
  dispbeg :: nat
  dispend :: nat
  beeps :: nat
  history :: "string list"
  histsize :: int
  sym_head :: "Define list"
  mac_head :: "Define list"
  assoc_head :: "Define list"
  macro_stk :: "Define list"
  assoc_pos :: nat
  mcmd :: "string option"
  kbd :: bool
  def_macro :: bool
  found_quote :: bool
  check_break :: int
  heap :: "bool list"
  env :: "string \<Rightarrow> string"
  envvar_len :: nat
  typed :: "(string \<times> bool) list"
  printed :: "string list"
  cmdfile :: "string list option"
  show_prompt :: bool

definition malloc :: "state \<Rightarrow> bool \<times> state" where
  "malloc st = (case heap st of [] \<Rightarrow> (True, st) | b # bs \<Rightarrow> (b, st\<lparr>heap := bs\<rparr>))"

section \<open>Text buffer\<close>

definition bell :: "state \<Rightarrow> state" where
  "bell st = (if \<not> silent (option st) then st\<lparr>beeps := beeps st + 1\<rparr> else st)"

definition set_display_marks :: "nat \<Rightarrow> nat \<Rightarrow> state \<Rightarrow> state" where
  "set_display_marks beg end' st =
     (let st1 = (if beg < dispbeg st then st\<lparr>dispbeg := beg\<rparr> else st)
      in if end' > dispend st1 then st1\<lparr>dispend := end'\<rparr> else st1)"

definition copy_chars :: "string \<Rightarrow> state \<Rightarrow> state" where
  \<comment> \<open>\<open>copy_chars( str, cnt )\<close> with \<open>str\<close> the \<open>cnt\<close> code units passed.\<close>
  "copy_chars str st =
     (let st1 = set_display_marks 0 (length (line st)) st;
          cnt = length str;
          (cnt, st2) = (if cnt > max_sz st1 then (max_sz st1, bell st1) else (cnt, st1));
          st3 = st2\<lparr>line := take cnt str\<rparr>
      in set_display_marks 0 (length (line st3)) st3)"

definition remove_chars :: "nat \<Rightarrow> nat \<Rightarrow> state \<Rightarrow> state" where
  "remove_chars pos cnt st =
     (let st1 = set_display_marks pos (length (line st)) st
      in st1\<lparr>line := take pos (line st1) @ drop (pos + cnt) (line st1)\<rparr>)"

definition insert_chars :: "nat \<Rightarrow> string \<Rightarrow> state \<Rightarrow> state" where
  \<comment> \<open>\<open>insert_chars( pos, str, cnt )\<close> with \<open>str\<close> the \<open>cnt\<close> code units passed.\<close>
  "insert_chars pos str st =
     (let cnt = length str;
          (cnt, st1) = (if length (line st) + cnt > max_sz st
                        then (dword_sub (max_sz st) (length (line st)), bell st) else (cnt, st));
          st2 = st1\<lparr>line := take pos (line st1) @ take cnt str @ drop pos (line st1)\<rparr>
      in set_display_marks pos (length (line st2)) st2)"

definition overwrite :: "nat \<Rightarrow> string \<Rightarrow> string \<Rightarrow> string" where
  \<comment> \<open>\<open>memcpy( txt + pos, str, WSZ(length str) )\<close> inside the text.\<close>
  "overwrite pos str txt = take pos txt @ str @ drop (pos + length str) txt"

definition replace_chars :: "nat \<Rightarrow> nat \<Rightarrow> string \<Rightarrow> state \<Rightarrow> state" where
  \<comment> \<open>\<open>replace_chars( pos, old, str, cnt )\<close> with \<open>str\<close> the \<open>cnt\<close> code units passed.\<close>
  "replace_chars pos old str st =
     (let cnt = length str in
      if old \<ge> cnt then
        (let st1 = set_display_marks pos (pos + cnt) st;
             st2 = st1\<lparr>line := overwrite pos str (line st1)\<rparr>
         in if old \<noteq> cnt then remove_chars (pos + cnt) (old - cnt) st2 else st2)
      else
        (let st1 = set_display_marks pos (pos + old) st;
             st2 = st1\<lparr>line := overwrite pos (take old str) (line st1)\<rparr>
         in insert_chars (pos + old) (drop old str) st2))"

text \<open>
  The four buffer operations as commands. An operation is in range when the
  positions it is given lie inside the text; outside that range the
  \<open>memcpy\<close>/\<open>memmove\<close> calls touch memory beyond the line and the C code has no
  defined result, which \<open>run_ops\<close> reports as \<open>None\<close>.
\<close>

datatype buf_op =
  SetAll string
| Remove nat nat
| Insert nat string
| Replace nat nat string

fun in_range :: "buf_op \<Rightarrow> state \<Rightarrow> bool" where
  "in_range (SetAll str) st = True"
| "in_range (Remove pos cnt) st = (pos + cnt \<le> length (line st))"
| "in_range (Insert pos str) st = (pos \<le> length (line st))"
| "in_range (Replace pos old str) st = (pos + old \<le> length (line st))"

fun apply_op :: "buf_op \<Rightarrow> state \<Rightarrow> state" where
  "apply_op (SetAll str) st = copy_chars str st"
| "apply_op (Remove pos cnt) st = remove_chars pos cnt st"
| "apply_op (Insert pos str) st = insert_chars pos str st"
| "apply_op (Replace pos old str) st = replace_chars pos old str st"

fun run_ops :: "buf_op list \<Rightarrow> state \<Rightarrow> state option" where
  "run_ops [] st = Some st"
| "run_ops (op # ops) st = (if in_range op st then run_ops ops (apply_op op st) else None)"

text \<open>A state with an empty line of capacity 8, used to run the model on concrete inputs.\<close>

definition option0 :: Option where
  "option0 = \<lparr>silent = False, disable_macro = False, ignore_char = CHR '' '',
     min_length = 1, opt_histsize = 50\<rparr>"

definition state0 :: state where
  "state0 = \<lparr>option = option0, line = [], max_sz = 8, dispbeg = 0, dispend = 0, beeps = 0,
     history = [], histsize = 0, sym_head = [], mac_head = [], assoc_head = [],
     macro_stk = [], assoc_pos = 0, mcmd = None, kbd = True, def_macro = False,
     found_quote = False, check_break = 1, heap = [], env = (\<lambda>_. []), envvar_len = 0,
     typed = [], printed = [], cmdfile = None, show_prompt = True\<rparr>"

section \<open>History\<close>

text \<open>
  A pointer into the history ring is a position: \<open>0\<close> is the sentinel
  \<open>&history\<close> (an empty line that is never an entry), \<open>i + 1\<close> the entry
  \<open>history st ! i\<close>. \<open>hist_next\<close> and \<open>hist_prev\<close> follow the \<open>next\<close> and
  \<open>prev\<close> pointers round the ring.
\<close>

definition hist_line :: "state \<Rightarrow> nat \<Rightarrow> string" where
  "hist_line st h = (if h = 0 then [] else history st ! (h - 1))"

definition hist_next :: "state \<Rightarrow> nat \<Rightarrow> nat" where
  "hist_next st h = (h + 1) mod (length (history st) + 1)"

definition hist_prev :: "state \<Rightarrow> nat \<Rightarrow> nat" where
  "hist_prev st h = (h + length (history st)) mod (length (history st) + 1)"

definition new_history :: "state \<Rightarrow> bool \<times> state" where
  \<comment> \<open>Whether the node was allocated; its text is the text passed.\<close>
  "new_history st = malloc st"

definition remove_from_history :: "nat \<Rightarrow> state \<Rightarrow> state option" where
  \<comment> \<open>\<open>None\<close>: the sentinel was passed, which the C code unlinks and hands to \<open>free\<close>.\<close>
  "remove_from_history h st =
     (if h = 0 then None
      else Some (st\<lparr>history := take (h - 1) (history st) @ drop h (history st),
                     histsize := histsize st - 1\<rparr>))"

fun scan_history :: "string \<Rightarrow> string list \<Rightarrow> nat \<Rightarrow> nat" where
  \<comment> \<open>The loop \<open>for (h = history.prev; h != &history; h = h->prev)\<close> of \<open>add_to_history\<close>, from position \<open>h\<close>.\<close>
  "scan_history l hs 0 = 0"
| "scan_history l hs (Suc i) =
     (if length (hs ! i) = length l \<and> hs ! i = l then Suc i else scan_history l hs i)"

definition add_to_history :: "state \<Rightarrow> state option" where
  "add_to_history st =
     (if length (line st) < min_length (option st) then Some st
      else
        (let h = scan_history (line st) (history st) (length (history st)) in
         if h = 0 then
           (case (if opt_histsize (option st) \<noteq> 0 \<and> histsize st = int (opt_histsize (option st))
                  then remove_from_history (hist_next st 0) st else Some st) of
              None \<Rightarrow> None
            | Some st1 \<Rightarrow>
                (let (h_ok, st2) = new_history st1 in
                 if \<not> h_ok then Some st2
                 else Some (st2\<lparr>histsize := histsize st2 + 1,
                                 history := history st2 @ [line st2]\<rparr>)))
         else
           Some (st\<lparr>history := take (h - 1) (history st) @ drop h (history st)
                                   @ [history st ! (h - 1)]\<rparr>)))"

partial_function (option) search_from :: "state \<Rightarrow> nat \<Rightarrow> nat \<Rightarrow> bool \<Rightarrow> nat \<Rightarrow> nat option option" where
  \<comment> \<open>The \<open>do ... while\<close> loop of \<open>search_history\<close> with \<open>h\<close> its current pointer.\<close>
  "search_from st hist len bck h =
     (let h1 = (if bck then hist_prev st h else hist_next st h);
          fnd = (length (hist_line st h1) \<ge> len \<and> wcsnicmp (hist_line st h1) (line st) len = 0)
      in if \<not> fnd \<and> h1 \<noteq> hist then search_from st hist len bck h1
         else Some (if fnd then Some h1 else None))"

declare search_from.simps [code]

definition search_history :: "state \<Rightarrow> nat \<Rightarrow> nat \<Rightarrow> bool \<Rightarrow> nat option option" where
  \<comment> \<open>The outer \<open>None\<close>: the loop does not end; \<open>Some None\<close>: it returns \<open>NULL\<close>.\<close>
  "search_history st hist len bck = search_from st hist len bck hist"

text \<open>
  The nodes of the ring in the order of the pointers, starting right after
  (before, when going backwards) the position \<open>hist\<close> and ending with \<open>hist\<close>
  itself; the sentinel is one of them.
\<close>

definition ring_order :: "state \<Rightarrow> nat \<Rightarrow> bool \<Rightarrow> nat list" where
  "ring_order st hist bck =
     (let N = length (history st) + 1
      in map (\<lambda>k. if bck then (hist + (N - k)) mod N else (hist + k) mod N) [1..<N + 1])"

text \<open>
  The words of the specification for the search: the entries are visited in
  ring order starting right after (before, when searching backwards) \<open>from\<close>,
  wrapping round once back to \<open>from\<close>; the sentinel is no entry and is not
  among them. The answer is the first entry visited whose text begins, ignoring
  case, with the first \<open>len\<close> code units of the line, or none.
\<close>

definition visit_order :: "state \<Rightarrow> nat \<Rightarrow> bool \<Rightarrow> nat list" where
  "visit_order st hist bck = filter (\<lambda>h. h \<noteq> 0) (ring_order st hist bck)"

definition begins_with :: "string \<Rightarrow> string \<Rightarrow> bool" where
  "begins_with txt pre = (length pre \<le> length txt \<and> map towlower (take (length pre) txt) = map towlower pre)"

definition search_spec :: "state \<Rightarrow> nat \<Rightarrow> nat \<Rightarrow> bool \<Rightarrow> nat option" where
  "search_spec st hist len bck =
     List.find (\<lambda>h. begins_with (hist_line st h) (take len (line st))) (visit_order st hist bck)"

definition enter :: "string \<Rightarrow> state \<Rightarrow> state option" where
  \<comment> \<open>The text is on the line and the key bound to \<open>Enter\<close> is pressed: \<open>case Enter: add_to_history(); done = TRUE\<close>.\<close>
  "enter txt st = add_to_history (st\<lparr>line := txt\<rparr>)"

section \<open>Definitions: symbols, macros, associations\<close>

text \<open>The \<open>PDefine*\<close> arguments of edit.c: which list head a function works on.\<close>

datatype deflist = Sym | Mac | Assoc | Stk

fun get_head :: "deflist \<Rightarrow> state \<Rightarrow> Define list" where
  "get_head Sym st = sym_head st"
| "get_head Mac st = mac_head st"
| "get_head Assoc st = assoc_head st"
| "get_head Stk st = macro_stk st"

fun set_head :: "deflist \<Rightarrow> Define list \<Rightarrow> state \<Rightarrow> state" where
  "set_head Sym ds st = st\<lparr>sym_head := ds\<rparr>"
| "set_head Mac ds st = st\<lparr>mac_head := ds\<rparr>"
| "set_head Assoc ds st = st\<lparr>assoc_head := ds\<rparr>"
| "set_head Stk ds st = st\<lparr>macro_stk := ds\<rparr>"

definition add_define :: "deflist \<Rightarrow> nat \<Rightarrow> nat \<Rightarrow> state \<Rightarrow> bool \<times> state" where
  \<comment> \<open>Whether a definition was allocated; it is then the head of the list.\<close>
  "add_define head pos cnt st =
     (let (d_ok, st1) = malloc st in
      if d_ok then
        (True, set_head head (\<lparr>name = take cnt (drop pos (line st1)), dline = []\<rparr> # get_head head st1) st1)
      else (False, st1))"

definition same_name :: "string \<Rightarrow> nat \<Rightarrow> Define \<Rightarrow> bool" where
  \<comment> \<open>\<open>d->len == cnt && _wcsnicmp( d->name, txt, cnt ) == 0\<close>\<close>
  "same_name txt cnt d = (length (name d) = cnt \<and> wcsnicmp (name d) txt cnt = 0)"

definition move_to_head :: "('a \<Rightarrow> bool) \<Rightarrow> 'a list \<Rightarrow> 'a list option" where
  \<comment> \<open>The list walk of \<open>find_define\<close> and \<open>find_assoc\<close>: the first element that matches is unlinked and made the head.\<close>
  "move_to_head P ds =
     (case dropWhile (\<lambda>d. \<not> P d) ds of
        [] \<Rightarrow> None
      | d # rest \<Rightarrow> Some (d # takeWhile (\<lambda>d. \<not> P d) ds @ rest))"

definition find_define :: "deflist \<Rightarrow> nat \<Rightarrow> nat \<Rightarrow> state \<Rightarrow> bool \<times> state" where
  \<comment> \<open>Whether a definition was found; it is then the head of the list.\<close>
  "find_define head pos cnt st =
     (case move_to_head (same_name (drop pos (line st)) cnt) (get_head head st) of
        None \<Rightarrow> (False, st)
      | Some ds \<Rightarrow> (True, set_head head ds st))"

definition del_define :: "deflist \<Rightarrow> state \<Rightarrow> state" where
  "del_define head st = set_head head (tl (get_head head st)) st"

definition add_line :: "nat \<Rightarrow> state \<Rightarrow> string list \<times> state" where
  \<comment> \<open>The line list allocated: one line, or \<open>NULL\<close>.\<close>
  "add_line pos st =
     (let (ll_ok, st1) = malloc st in
      if ll_ok then ([drop pos (line st1)], st1) else ([], st1))"

definition set_dline :: "deflist \<Rightarrow> string list \<Rightarrow> state \<Rightarrow> state" where
  \<comment> \<open>\<open>d->line = ll\<close> for the definition \<open>d\<close> at the head of the list.\<close>
  "set_dline head ll st =
     (case get_head head st of
        [] \<Rightarrow> st
      | d # ds \<Rightarrow> set_head head (d\<lparr>dline := ll\<rparr> # ds) st)"

section \<open>Scanning the line\<close>

fun skip_while :: "(char \<Rightarrow> bool) \<Rightarrow> string \<Rightarrow> nat \<Rightarrow> nat" where
  \<comment> \<open>\<open>while (pos < line.len && P( line.txt[pos] )) ++pos;\<close>\<close>
  "skip_while P txt pos = pos + length (takeWhile P (drop pos txt))"

definition skip_blank :: "nat \<Rightarrow> state \<Rightarrow> nat" where
  "skip_blank pos st = skip_while isblank (line st) pos"

definition skip_nonblank :: "nat \<Rightarrow> state \<Rightarrow> nat" where
  "skip_nonblank pos st = skip_while (\<lambda>c. \<not> isblank c) (line st) pos"

definition skip_nondelim :: "nat \<Rightarrow> state \<Rightarrow> nat" where
  "skip_nondelim pos st = skip_while (\<lambda>c. \<not> wcschr DEF_TERM c) (line st) pos"

definition is_quote :: "nat \<Rightarrow> state \<Rightarrow> bool" where
  \<comment> \<open>A quote preceded by an even number of backslashes.\<close>
  "is_quote pos st =
     (pos < length (line st) \<and> line st ! pos = QUOTE_CH
      \<and> even (length (takeWhile (\<lambda>c. c = BACKSLASH) (rev (take pos (line st))))))"

lemma length_line_remove_chars [simp]:
  "length (line (remove_chars pos cnt st)) = min pos (length (line st)) + (length (line st) - (pos + cnt))"
  by (simp add: remove_chars_def set_display_marks_def Let_def)

function un_escape_loop :: "string option \<Rightarrow> nat \<Rightarrow> bool \<Rightarrow> state \<Rightarrow> state" where
  \<comment> \<open>The \<open>for\<close> loop of \<open>un_escape\<close> at position \<open>pos\<close>.\<close>
  "un_escape_loop unq pos quote st =
     (if pos < length (line st) then
        (if quote then
           (if is_quote pos st then un_escape_loop unq (pos + 1) False st
            else if unq \<noteq> None \<and> line st ! pos = ESCAPE \<and> pos + 1 < length (line st)
                    \<and> wcschr (the unq) (line st ! (pos + 1))
            then un_escape_loop unq (pos + 1) True (remove_chars pos 1 st)
            else un_escape_loop unq (pos + 1) True st)
         else if is_quote pos st then un_escape_loop unq (pos + 1) True st
         else if unq = None \<and> line st ! pos = ESCAPE \<and> pos + 1 < length (line st)
         then un_escape_loop unq (pos + 1) False (remove_chars pos 1 st)
         else un_escape_loop unq (pos + 1) False st)
      else st)"
  by pat_completeness auto
termination
  by (relation "measure (\<lambda>(unq, pos, quote, st). length (line st) - pos)") auto

declare un_escape_loop.simps [simp del]

definition un_escape :: "string option \<Rightarrow> state \<Rightarrow> state" where
  \<comment> \<open>\<open>unq\<close> is \<open>None\<close> for the \<open>NULL\<close> argument.\<close>
  "un_escape unq st = (if ESCAPE \<notin> set (line st) then st else un_escape_loop unq 0 False st)"

section \<open>Variable substitution\<close>

definition get_env_var :: "string \<Rightarrow> state \<Rightarrow> string \<times> state" where
  \<comment> \<open>\<open>get_env_var( var, NULL )\<close>: the text left in the \<open>envvar\<close> buffer, of the length returned.\<close>
  "get_env_var var st =
     (let v = env st (takeWhile (\<lambda>c. c \<noteq> NUL) var) in
      if v = [] then ([], st)
      else if length v < envvar_len st then (v, st)
      else (let (v_ok, st1) = malloc st in
            if \<not> v_ok then ([], st1) else (v, st1\<lparr>envvar_len := length v + 1\<rparr>)))"

partial_function (option) expand_vars_loop :: "bool \<Rightarrow> nat \<Rightarrow> nat option \<Rightarrow> state \<Rightarrow> state option" where
  \<comment> \<open>The \<open>for\<close> loop of \<open>expand_vars\<close> at position \<open>pos\<close>; \<open>start\<close> is \<open>None\<close> for \<open>~0\<close>.
      \<open>None\<close> is returned when the symbol found has no line (a \<open>NULL\<close> pointer is read).\<close>
  "expand_vars_loop env_too pos start st =
     (if pos < length (line st) then
        (if line st ! pos = ESCAPE then expand_vars_loop env_too (pos + 2) start st
         else if line st ! pos = VARIABLE then
           (case start of
              None \<Rightarrow> expand_vars_loop env_too (pos + 1) (Some (pos + 1)) st
            | Some s \<Rightarrow>
                (let cnt = pos - s;
                     ev = (if env_too then get_env_var (take cnt (drop s (line st))) st
                           else ([], st))
                 in if fst ev \<noteq> []
                    then expand_vars_loop env_too (pos + 1) None
                           (replace_chars (s - 1) (cnt + 2) (fst ev) (snd ev))
                    else
                      (let d = find_define Sym s cnt (snd ev) in
                       if \<not> fst d then expand_vars_loop env_too (pos + 1) (Some (pos + 1)) (snd d)
                       else if dline (hd (sym_head (snd d))) = [] then None
                       else if hd (dline (hd (sym_head (snd d)))) \<noteq> []
                       then expand_vars_loop env_too (pos + 1) None
                              (replace_chars (s - 1) (cnt + 2) (hd (dline (hd (sym_head (snd d))))) (snd d))
                       else expand_vars_loop env_too (pos + 1) (Some (pos + 1)) (snd d))))
         else expand_vars_loop env_too (pos + 1) start st)
      else Some st)"

declare expand_vars_loop.simps [code]

definition expand_vars :: "bool \<Rightarrow> state \<Rightarrow> state option" where
  "expand_vars env_too st = map_option (un_escape (Some VAR_ESCAPE)) (expand_vars_loop env_too 0 None st)"

section \<open>Line input\<close>

definition move_quote_left :: "nat \<Rightarrow> nat \<Rightarrow> string \<Rightarrow> string" where
  \<comment> \<open>\<open>memmove( txt + start + 1, txt + start, WSZ(pos - start) ); txt[start] = '"'\<close>\<close>
  "move_quote_left start pos txt =
     take start txt @ QUOTE_CH # take (pos - start) (drop start txt) @ drop (pos + 1) txt"

definition move_quote_right :: "nat \<Rightarrow> nat \<Rightarrow> string \<Rightarrow> string" where
  \<comment> \<open>\<open>memcpy( txt + cq, txt + cq + 1, WSZ(pos - cq) ); txt[pos] = '"'\<close>\<close>
  "move_quote_right cq pos txt =
     take cq txt @ take (pos - cq) (drop (cq + 1) txt) @ QUOTE_CH # drop (pos + 1) txt"

text \<open>
  The loop variables of \<open>get_string\<close>: \<open>pos\<close>, \<open>quote\<close>, \<open>oq\<close>, \<open>cq\<close> (\<open>None\<close> for
  \<open>~0\<close>) and the state. \<open>get_string_step\<close> is one round of its \<open>for\<close> loop, the
  increment included; the flag returned says that the loop is left (by its
  condition or by \<open>break\<close>).
\<close>

type_synonym gs_vars = "nat \<times> bool \<times> bool \<times> nat option \<times> state"

definition get_string_step :: "bool \<Rightarrow> nat \<Rightarrow> gs_vars \<Rightarrow> bool \<times> gs_vars" where
  "get_string_step keep start = (\<lambda>(pos, quote, oq, cq, st).
     if pos < length (line st) then
       (if quote then
          (if is_quote pos st then
             (if \<not> keep then
                (case cq of
                   Some c \<Rightarrow> (False, (pos, False, oq, Some (pos - 1), remove_chars c 1 st))
                 | None \<Rightarrow> (False, (pos + 1, False, oq, Some pos, st)))
              else (False, (pos + 1, False, oq, cq, st)))
           else (False, (pos + 1, True, oq, cq, st)))
        else if is_quote pos st then
          (if \<not> keep then
             (if oq then (False, (pos, True, oq, cq, remove_chars pos 1 (st\<lparr>found_quote := True\<rparr>)))
              else if pos \<noteq> start
              then (False, (pos + 1, True, True, cq,
                      set_display_marks start (pos + 1)
                        (st\<lparr>found_quote := True, line := move_quote_left start pos (line st)\<rparr>)))
              else (False, (pos + 1, True, True, cq, st\<lparr>found_quote := True\<rparr>)))
           else (False, (pos + 1, True, oq, cq, st\<lparr>found_quote := True\<rparr>)))
        else if isblank (line st ! pos) then (True, (pos, quote, oq, cq, st))
        else (False, (pos + 1, False, oq, cq, st)))
     else (True, (pos, quote, oq, cq, st)))"

partial_function (option) get_string_loop :: "bool \<Rightarrow> nat \<Rightarrow> gs_vars \<Rightarrow> gs_vars option" where
  "get_string_loop keep start v =
     (let r = get_string_step keep start v
      in if fst r then Some (snd r) else get_string_loop keep start (snd r))"

declare get_string_loop.simps [code]

definition get_string :: "nat \<Rightarrow> bool \<Rightarrow> state \<Rightarrow> (nat \<times> nat \<times> state) option" where
  \<comment> \<open>\<open>get_string( pos, &cnt, keep )\<close>: the start returned, \<open>cnt\<close> and the state.\<close>
  "get_string pos keep st =
     (let start = skip_blank pos st in
      case get_string_loop keep start (start, False, False, None, st\<lparr>found_quote := False\<rparr>) of
        None \<Rightarrow> None
      | Some (pos1, quote, oq, cq, st1) \<Rightarrow>
          if \<not> keep then
            (let start1 = (if oq then start + 1 else start) in
             case cq of
               None \<Rightarrow> Some (start1, dword_sub pos1 start1, st1)
             | Some c \<Rightarrow>
                 (let pos2 = pos1 - 1;
                      st2 = (if c \<noteq> pos2
                             then set_display_marks c (pos2 + 1)
                                    (st1\<lparr>line := move_quote_right c pos2 (line st1)\<rparr>)
                             else st1)
                  in Some (start1, dword_sub pos2 start1, st2)))
          else Some (start, dword_sub pos1 start, st1))"

definition pop_macro :: "state \<Rightarrow> state" where
  "pop_macro st = (case macro_stk st of [] \<Rightarrow> st | m # ms \<Rightarrow> st\<lparr>macro_stk := ms\<rparr>)"

fun nth_arg :: "nat \<Rightarrow> nat \<Rightarrow> nat \<Rightarrow> state \<Rightarrow> (nat \<times> nat \<times> state) option" where
  \<comment> \<open>\<open>do arg = get_string( arg + cnt, &cnt, TRUE ); while (--argnum);\<close> on the line in the state.\<close>
  "nth_arg 0 arg cnt st = Some (arg, cnt, st)"
| "nth_arg (Suc n) arg cnt st =
     (case get_string (arg + cnt) True st of
        None \<Rightarrow> None
      | Some (arg1, cnt1, st1) \<Rightarrow> nth_arg n arg1 cnt1 st1)"

definition is_digit :: "char \<Rightarrow> bool" where
  "is_digit c = (48 \<le> (of_char c :: nat) \<and> (of_char c :: nat) \<le> 57)"

partial_function (option) get_macro_loop :: "string \<Rightarrow> nat \<Rightarrow> state \<Rightarrow> state option" where
  \<comment> \<open>The \<open>for\<close> loop of \<open>get_macro_line\<close>; \<open>args\<close> is \<open>macro_stk->name\<close>, the line that
      called the macro. The arguments are found by \<open>get_string\<close> with \<open>line\<close> set to that
      text for the time of the calls (\<open>temp = line; ...; line = temp\<close>); what \<open>get_string\<close>
      writes elsewhere (\<open>found_quote\<close>) stays written.\<close>
  "get_macro_loop args pos st =
     (if pos < length (line st) then
        (if line st ! pos = ESCAPE then get_macro_loop args (pos + 2) st
         else if line st ! pos = VARIABLE \<and> pos + 1 < length (line st)
                 \<and> (line st ! (pos + 1) = CHR ''*'' \<or> is_digit (line st ! (pos + 1)))
         then
           (let pos1 = pos + 1;
                argnum = (if line st ! pos1 = CHR ''*'' then 2
                          else of_char (line st ! pos1) - 48 + 1)
            in case nth_arg argnum 0 0 (st\<lparr>line := args\<rparr>) of
                 None \<Rightarrow> None
               | Some (arg, cnt, sa) \<Rightarrow>
                   (let st' = sa\<lparr>line := line st\<rparr>;
                        star = (line st ! pos1 \<noteq> CHR ''*'' \<and> pos1 + 1 < length (line st)
                                \<and> line st ! (pos1 + 1) = CHR ''*'');
                        pos2 = (if star then pos1 + 1 else pos1);
                        var = (if star then 3 else 2);
                        cnt1 = (if line st ! pos2 = CHR ''*'' then dword_sub (length args) arg else cnt)
                    in get_macro_loop args (pos2 + 1)
                         (replace_chars (pos2 + 1 - var) var (take cnt1 (drop arg args)) st')))
         else get_macro_loop args (pos + 1) st)
      else Some st)"

declare get_macro_loop.simps [code]

definition get_macro_line :: "state \<Rightarrow> state option" where
  \<comment> \<open>\<open>None\<close> also when the macro on the stack has no line left to read (a \<open>NULL\<close> pointer).\<close>
  "get_macro_line st =
     (case macro_stk st of
        [] \<Rightarrow> None
      | m # ms \<Rightarrow>
          (case dline m of
             [] \<Rightarrow> None
           | l # ls \<Rightarrow>
               (case get_macro_loop (name m) 0 (copy_chars l st) of
                  None \<Rightarrow> None
                | Some st1 \<Rightarrow>
                    (let st2 = un_escape (Some ARG_ESCAPE) st1;
                         st3 = st2\<lparr>macro_stk := m\<lparr>dline := ls\<rparr> # ms\<rparr>
                     in Some (if ls = [] then pop_macro st3 else st3)))))"

text \<open>
  \<open>edit_line\<close> reads keys until one bound to a function that ends the line.
  The model takes the outcome of that editing from \<open>typed\<close>: the text left on
  the line (at most \<open>max\<close> code units of it) and the function that ended it,
  \<open>Enter\<close> (\<open>add_to_history(); done = TRUE\<close>) or \<open>Wipe\<close> (\<open>done = TRUE\<close>). With
  nothing left to type the call never returns. What \<open>edit_line\<close> draws on the
  screen (the prompt and the line) is not collected; when it is entered
  \<open>show_prompt\<close> is set, or is left set.
\<close>

definition edit_line :: "state \<Rightarrow> state option" where
  "edit_line st =
     (case typed st of
        [] \<Rightarrow> None
      | (txt, store) # rest \<Rightarrow>
          (let st1 = st\<lparr>show_prompt := True, typed := rest, line := take (max_sz st) txt\<rparr>
           in if store then add_to_history st1 else Some st1))"

text \<open>
  \<open>get_file_line\<close> reads the next buffer of the command file that is neither
  blank nor starts with \<open>-\<close>. The line is the buffer without its last code unit
  (\<open>line.len -= 2\<close> discounts the newline and the \<open>NUL\<close>); the conversion of
  \<open>MultiByteToWideChar\<close> is taken code unit by code unit. At the end of the file the
  line is \<open>ENDM\<close> while a macro is being defined. \<open>FNoMem\<close>: \<open>realloc\<close> failed, which
  leaves \<open>line.txt\<close> \<open>NULL\<close> with the length of the buffer in \<open>line.len\<close>.
\<close>

definition ENDM :: string where "ENDM = ''endm''"

datatype file_res = FLine | FEof | FNoMem

fun get_file_line_from :: "string list \<Rightarrow> state \<Rightarrow> file_res \<times> state" where
  "get_file_line_from [] st =
     (if def_macro st then (FLine, st\<lparr>cmdfile := Some [], line := ENDM\<rparr>)
      else (FEof, st\<lparr>cmdfile := Some [], line := []\<rparr>))"
| "get_file_line_from (buf # rest) st =
     (if take 1 buf = [CHR 0x0A] \<or> take 1 buf = ''-'' then get_file_line_from rest st
      else
        (let len = length buf + 1;
             st1 = st\<lparr>cmdfile := Some rest\<rparr>
         in if len > max_sz st1 then
              (let (t_ok, st2) = malloc st1 in
               if \<not> t_ok then (FNoMem, st2\<lparr>line := []\<rparr>)
               else (FLine, st2\<lparr>max_sz := len, line := butlast buf\<rparr>))
            else (FLine, st1\<lparr>line := butlast buf\<rparr>)))"

definition get_file_line :: "state \<Rightarrow> file_res \<times> state" where
  "get_file_line st = get_file_line_from (case cmdfile st of None \<Rightarrow> [] | Some bufs \<Rightarrow> bufs) st"

definition get_next_line :: "state \<Rightarrow> state option" where
  \<comment> \<open>\<open>None\<close> also when \<open>get_file_line\<close> has left no text to read (\<open>FNoMem\<close>).\<close>
  "get_next_line st =
     (let st1 = st\<lparr>line := [], kbd := False\<rparr> in
      if cmdfile st1 \<noteq> None then
        (case get_file_line st1 of (r, st2) \<Rightarrow> if r = FNoMem then None else Some st2)
      else if macro_stk st1 \<noteq> [] then get_macro_line st1
      else
        (case mcmd st1 of
           Some txt \<Rightarrow> Some ((if txt \<noteq> [] then copy_chars txt st1 else st1)\<lparr>mcmd := None\<rparr>)
         | None \<Rightarrow> edit_line (st1\<lparr>kbd := True\<rparr>)))"

section \<open>Internal commands\<close>

function match_ext_loop :: "string \<Rightarrow> nat \<Rightarrow> string \<Rightarrow> nat \<Rightarrow> nat option" where
  \<comment> \<open>The outer \<open>for\<close> loop of \<open>match_ext\<close> at \<open>pos\<close>; the result is the value given to \<open>assoc_pos\<close>.\<close>
  "match_ext_loop ext cnt extlist pos =
     (if pos < length extlist then
        (let end' = pos + 1 + length (takeWhile (\<lambda>c. c \<noteq> CHR ''.'' \<and> c \<noteq> CHR '';'' \<and> c \<noteq> CHR '':'')
                                      (drop (pos + 1) extlist))
         in if end' - pos = cnt \<and> wcsnicmp (drop pos extlist) ext cnt = 0 then Some pos
            else if end' = length extlist then None
            else if extlist ! end' \<noteq> CHR ''.'' then match_ext_loop ext cnt extlist (end' + 1)
            else match_ext_loop ext cnt extlist end')
      else None)"
  by pat_completeness auto
termination
  by (relation "measure (\<lambda>(ext, cnt, extlist, pos). length extlist - pos)") auto

declare match_ext_loop.simps [simp del]

definition match_ext :: "string \<Rightarrow> nat \<Rightarrow> string \<Rightarrow> nat option" where
  "match_ext ext cnt extlist = match_ext_loop ext cnt extlist 0"

definition find_assoc :: "string \<Rightarrow> nat \<Rightarrow> state \<Rightarrow> bool \<times> state" where
  \<comment> \<open>Whether an association was found; it is then the head of \<open>assoc_head\<close>, and \<open>assoc_pos\<close> is where it matched.\<close>
  "find_assoc ext cnt st =
     (case move_to_head (\<lambda>a. match_ext ext cnt (name a) \<noteq> None) (assoc_head st) of
        None \<Rightarrow> (False, st)
      | Some ds \<Rightarrow> (True, st\<lparr>assoc_head := ds, assoc_pos := the (match_ext ext cnt (name (hd ds)))\<rparr>))"

lemma skip_while_ge: "pos \<le> skip_while P txt pos"
  by simp

lemma skip_word_gt:
  "pos < length (line st) \<Longrightarrow> pos < skip_blank (skip_nonblank pos st) st"
proof -
  assume p: "pos < length (line st)"
  then obtain c cs where d: "drop pos (line st) = c # cs"
    by (cases "drop pos (line st)") auto
  show ?thesis
  proof (cases "isblank c")
    case True
    then have "skip_nonblank pos st = pos" using d by (simp add: skip_nonblank_def)
    then show ?thesis using d True by (simp add: skip_blank_def)
  next
    case False
    then have "pos < skip_nonblank pos st" using d by (simp add: skip_nonblank_def)
    then show ?thesis using skip_while_ge[of "skip_nonblank pos st" isblank "line st"]
      by (simp add: skip_blank_def del: skip_while.simps)
  qed
qed

lemma line_set_head [simp]: "line (set_head h ds st) = line st"
  by (cases h) simp_all

lemma line_find_define [simp]: "line (snd (find_define h pos cnt st)) = line st"
  by (simp add: find_define_def split: option.splits)

lemma line_del_define [simp]: "line (del_define h st) = line st"
  by (simp add: del_define_def)

function delete_define :: "deflist \<Rightarrow> nat \<Rightarrow> state \<Rightarrow> state" where
  "delete_define head pos st =
     (if pos < length (line st) then
        (let end' = skip_nonblank pos st;
             d = find_define head pos (end' - pos) st;
             st1 = (if fst d then del_define head (snd d) else snd d)
         in delete_define head (skip_blank end' st1) st1)
      else st)"
  by pat_completeness auto
termination
proof (relation "measure (\<lambda>(head, pos, st). length (line st) - pos)", goal_cases)
  case 1
  then show ?case by simp
next
  case (2 head pos st end' d st1)
  then have l: "line st1 = line st" by simp
  have "skip_nonblank pos st1 = skip_nonblank pos st" "\<And>p. skip_blank p st1 = skip_blank p st"
    using l by (simp_all add: skip_nonblank_def skip_blank_def)
  with 2 skip_word_gt[of pos st] l show ?case by simp
qed

declare delete_define.simps [simp del]

definition reset_define :: "deflist \<Rightarrow> state \<Rightarrow> state" where
  "reset_define head st = set_head head [] st"

definition printf :: "string \<Rightarrow> state \<Rightarrow> state" where
  "printf msg st = st\<lparr>printed := printed st @ [msg]\<rparr>"

definition invalid_name :: "string \<Rightarrow> nat \<Rightarrow> string \<Rightarrow> string" where
  \<comment> \<open>The message about an invalid name: the name is printed with \<open>%.*S\<close>, at most \<open>n\<close> code
      units of \<open>txt\<close> ending at a \<open>NUL\<close>, between quotes and followed by a full stop and a newline.\<close>
  "invalid_name what n txt =
     ''CMDkey: invalid '' @ what @ '' name: '' @ QUOTE_CH # takeWhile (\<lambda>c. c \<noteq> NUL) (take n txt)
       @ QUOTE_CH # CHR ''.'' # [CHR 0x0A]"

definition execute_defs :: "nat \<Rightarrow> state \<Rightarrow> state" where
  "execute_defs pos st =
     (if pos = length (line st) then st
      else
        (let end' = skip_nondelim pos st in
         if end' < length (line st) \<and> \<not> isblank (line st ! end')
         then printf (invalid_name ''symbol'' (skip_nonblank end' st - pos) (drop pos (line st))) st
         else
           (let cnt = end' - pos;
                m = find_define Mac pos cnt st;
                st1 = (if fst m then del_define Mac (snd m) else snd m);
                s = find_define Sym pos cnt st1;
                sym = fst s;
                st2 = (if sym \<and> dline (hd (sym_head (snd s))) \<noteq> [] then set_dline Sym [] (snd s) else snd s);
                def = skip_blank end' st2
            in if def = length (line st2) then (if sym then del_define Sym st2 else st2)
               else
                 (let a = (if \<not> sym then add_define Sym pos cnt st2 else (True, st2)) in
                  if \<not> fst a then snd a
                  else
                    (let ll = add_line def (snd a);
                         st3 = set_dline Sym (fst ll) (snd ll)
                     in if fst ll = [] then del_define Sym st3 else st3)))))"

definition DEFM :: string where "DEFM = ''DEFM> ''"

definition write_console :: "string \<Rightarrow> state \<Rightarrow> state" where
  "write_console msg st = st\<lparr>printed := printed st @ [msg]\<rparr>"

partial_function (option) defm_lines :: "bool \<Rightarrow> state \<Rightarrow> state option" where
  \<comment> \<open>The loop of the multi-line definition in \<open>execute_defm\<close>; \<open>first\<close> says that \<open>ll\<close> is still \<open>NULL\<close>.
      The macro being defined is the head of \<open>mac_head\<close>.\<close>
  "defm_lines first st =
     (case get_next_line (if kbd st then (write_console DEFM st)\<lparr>show_prompt := False\<rparr> else st) of
        None \<Rightarrow> None
      | Some st1 \<Rightarrow>
          (let pos = skip_blank 0 st1; end' = skip_nonblank pos st1 in
           if end' - pos = length ENDM \<and> wcsnicmp (drop pos (line st1)) ENDM (length ENDM) = 0
           then Some (if first then del_define Mac st1 else st1)
           else
             (let ll = add_line 0 st1 in
              if fst ll = [] then Some (del_define Mac (snd ll))
              else defm_lines False
                     (set_dline Mac (dline (hd (mac_head (snd ll))) @ fst ll) (snd ll)))))"

declare defm_lines.simps [code]

definition execute_defm :: "nat \<Rightarrow> state \<Rightarrow> state option" where
  "execute_defm pos st =
     (if def_macro st then Some st
      else
        (let st0 = st\<lparr>def_macro := True\<rparr>;
             end' = skip_nondelim pos st0 in
         map_option (\<lambda>s. s\<lparr>def_macro := False\<rparr>)
           (if end' < length (line st0) \<and> \<not> isblank (line st0 ! end')
            then Some (printf (invalid_name ''macro'' (skip_nonblank end' st0 - pos) (drop pos (line st0))) st0)
            else
              (let cnt = end' - pos;
                   s = find_define Sym pos cnt st0;
                   st1 = (if fst s then del_define Sym (snd s) else snd s);
                   m = find_define Mac pos cnt st1;
                   a = (if fst m then (True, set_dline Mac [] (snd m)) else add_define Mac pos cnt (snd m))
               in if \<not> fst a then Some (snd a)
                  else
                    (let st2 = snd a; def = skip_blank end' st2 in
                     if def \<noteq> length (line st2)
                     then (let ll = add_line def st2;
                               st3 = set_dline Mac (fst ll) (snd ll)
                           in Some (if fst ll = [] then del_define Mac st3 else st3))
                     else defm_lines True st2)))))"

text \<open>
  The words of the specification for the two tables: how many entries of a table
  carry a given name (compared as \<open>find_define\<close> compares), and the state in which
  every name is carried by at most one entry of the symbol and macro tables
  together.
\<close>

definition in_table :: "string \<Rightarrow> Define list \<Rightarrow> nat" where
  "in_table n ds = length (filter (same_name n (length n)) ds)"

definition one_table :: "state \<Rightarrow> bool" where
  "one_table st = (\<forall>n. in_table n (sym_head st) + in_table n (mac_head st) \<le> 1)"

text \<open>
  What \<open>execute_defs\<close> and \<open>execute_defm\<close> take from the line at \<open>pos\<close>: the
  name (up to the first delimiter), whether it is a valid name (it ends with the
  line or at a blank) and the text of the definition (what follows the blanks
  after the name).
\<close>

definition def_name :: "nat \<Rightarrow> state \<Rightarrow> string" where
  "def_name pos st = take (skip_nondelim pos st - pos) (drop pos (line st))"

definition name_ok :: "nat \<Rightarrow> state \<Rightarrow> bool" where
  "name_ok pos st =
     (\<not> (skip_nondelim pos st < length (line st) \<and> \<not> isblank (line st ! skip_nondelim pos st)))"

definition def_text :: "nat \<Rightarrow> state \<Rightarrow> string" where
  "def_text pos st = drop (skip_blank (skip_nondelim pos st) st) (line st)"

text \<open>
  A sequence of \<open>defs\<close> and \<open>defm\<close> commands: each is run on its own line, at
  the position where its arguments begin.
\<close>

datatype def_cmd = Defs nat string | Defm nat string

fun run_defs :: "def_cmd list \<Rightarrow> state \<Rightarrow> state option" where
  "run_defs [] st = Some st"
| "run_defs (Defs pos txt # cs) st = run_defs cs (execute_defs pos (st\<lparr>line := txt\<rparr>))"
| "run_defs (Defm pos txt # cs) st =
     (case execute_defm pos (st\<lparr>line := txt\<rparr>) of None \<Rightarrow> None | Some st1 \<Rightarrow> run_defs cs st1)"

section \<open>Names and tables\<close>

text \<open>
  What \<open>find_define\<close> compares of a name is its length and its code units up to
  the first \<open>NUL\<close>, folded to lower case: \<open>nkey\<close>. \<open>kc\<close> counts the entries of a
  list whose name has a given key, and \<open>tinv\<close> says that no key is carried by
  more than one entry of two lists together. \<open>tables\<close> are the symbol and macro
  lists of a state, \<open>names\<close> the names of a list in order. \<open>mvd\<close> is a list after
  the walk of \<open>find_define\<close>, \<open>rmv\<close> the list after \<open>find_define\<close> followed by
  \<open>del_define\<close> when the name was found, and \<open>upd\<close> relates the names of a list
  before and after a definition of the name \<open>nm\<close>: the entry found is kept (at
  the head) or removed, a name not found is added at the head or not at all.
\<close>

definition nkey :: "string \<Rightarrow> nat \<times> string" where
  "nkey s = (length s, takeWhile (\<lambda>c. c \<noteq> NUL) (map towlower s))"

definition kc :: "nat \<times> string \<Rightarrow> Define list \<Rightarrow> nat" where
  "kc k ds = length (filter (\<lambda>d. nkey (name d) = k) ds)"

definition tinv :: "Define list \<Rightarrow> Define list \<Rightarrow> bool" where
  "tinv s m = (\<forall>k. kc k s + kc k m \<le> 1)"

definition tables :: "state \<Rightarrow> Define list \<times> Define list" where
  "tables st = (sym_head st, mac_head st)"

definition gs_st :: "gs_vars \<Rightarrow> state" where
  "gs_st v = snd (snd (snd (snd v)))"

definition names :: "Define list \<Rightarrow> string list" where
  "names ds = map name ds"

definition mvd :: "(Define \<Rightarrow> bool) \<Rightarrow> Define list \<Rightarrow> Define list" where
  "mvd P S = (case move_to_head P S of None \<Rightarrow> S | Some ds \<Rightarrow> ds)"

definition rmv :: "(Define \<Rightarrow> bool) \<Rightarrow> Define list \<Rightarrow> Define list" where
  "rmv P M = (case move_to_head P M of None \<Rightarrow> M | Some ds \<Rightarrow> tl ds)"

definition upd :: "(Define \<Rightarrow> bool) \<Rightarrow> string \<Rightarrow> Define list \<Rightarrow> Define list \<Rightarrow> bool" where
  "upd P nm S S' =
     (if move_to_head P S = None then names S' = names S \<or> names S' = nm # names S
      else names S' = names (mvd P S) \<or> names S' = tl (names (mvd P S)))"

section \<open>Concrete inputs\<close>

definition stA :: state where
  "stA = state0\<lparr>line := ''abcdef''\<rparr>"

definition stA_silent :: state where
  "stA_silent = stA\<lparr>option := option0\<lparr>silent := True\<rparr>\<rparr>"

definition opsA :: "buf_op list" where
  "opsA = [Insert 3 ''XYZW'', Remove 0 2, Replace 1 2 ''0123456789'', SetAll ''0123456789abc'']"


definition stH :: state where
  "stH = state0\<lparr>option := option0\<lparr>opt_histsize := 2\<rparr>, history := [''dir'', ''cls''], histsize := 2\<rparr>"

definition stS :: state where
  "stS = state0\<lparr>history := [''dir /w'', ''cd tmp'', ''DIR a''], histsize := 3, line := ''di''\<rparr>"

definition stV :: state where
  "stV = state0\<lparr>max_sz := 80, sym_head := [\<lparr>name = ''sym'', dline = [''-expansion-'']\<rparr>],
     line := ''%sym%sym%''\<rparr>"

definition stV1 :: state where
  "stV1 = stV\<lparr>line := ''a %sym% b''\<rparr>"

definition stP :: state where
  "stP = stV\<lparr>line := ''%PATH% x'', env := (\<lambda>n. if n = ''PATH'' then ''Cbin'' else [])\<rparr>"

definition cmdsD :: "def_cmd list" where
  "cmdsD = [Defs 5 ''defs foo bar'', Defm 5 ''defm Foo baz'', Defm 5 ''defm ls dir /w'',
            Defs 5 ''defs LS dir'', Defs 5 ''defs ls  dir /b'']"

definition stD :: state where
  "stD = state0\<lparr>sym_head := [\<lparr>name = ''ls'', dline = [''dir'']\<rparr>],
                 mac_head := [\<lparr>name = ''foo'', dline = [''baz'']\<rparr>]\<rparr>"

definition stD1 :: state where
  "stD1 = stD\<lparr>line := ''defs LS  dir /b''\<rparr>"

section \<open>Properties of the text buffer\<close>

lemma line_bell [simp]: "line (bell st) = line st"
  by (simp add: bell_def)

lemma max_sz_bell [simp]: "max_sz (bell st) = max_sz st"
  by (simp add: bell_def)

lemma line_set_display_marks [simp]: "line (set_display_marks b e st) = line st"
  by (simp add: set_display_marks_def Let_def)

lemma max_sz_set_display_marks [simp]: "max_sz (set_display_marks b e st) = max_sz st"
  by (simp add: set_display_marks_def Let_def)

lemma dword_sub_le: "b \<le> a \<Longrightarrow> dword_sub a b = a - b"
  by (simp add: dword_sub_def)

lemma max_sz_copy_chars [simp]: "max_sz (copy_chars str st) = max_sz st"
  by (simp add: copy_chars_def Let_def split: prod.splits)

lemma line_copy_chars: "line (copy_chars str st) = take (max_sz st) str"
  by (simp add: copy_chars_def Let_def split: prod.splits)

lemma beeps_set_display_marks [simp]: "beeps (set_display_marks b e st) = beeps st"
  by (simp add: set_display_marks_def Let_def)

lemma option_set_display_marks [simp]: "option (set_display_marks b e st) = option st"
  by (simp add: set_display_marks_def Let_def)

lemma beeps_copy_chars:
  "beeps (copy_chars str st) =
     (if length str > max_sz st \<and> \<not> silent (option st) then beeps st + 1 else beeps st)"
  by (simp add: copy_chars_def bell_def Let_def split: prod.splits)

lemma max_sz_remove_chars [simp]: "max_sz (remove_chars pos cnt st) = max_sz st"
  by (simp add: remove_chars_def Let_def)

lemma line_remove_chars:
  "line (remove_chars pos cnt st) = take pos (line st) @ drop (pos + cnt) (line st)"
  by (simp add: remove_chars_def Let_def)

lemma max_sz_insert_chars [simp]: "max_sz (insert_chars pos str st) = max_sz st"
  by (simp add: insert_chars_def Let_def split: prod.splits)

lemma line_insert_chars:
  assumes "length (line st) \<le> max_sz st"
  shows "line (insert_chars pos str st) =
           take pos (line st) @ take (max_sz st - length (line st)) str @ drop pos (line st)"
  using assms by (auto simp: insert_chars_def Let_def dword_sub_le split: prod.splits)

lemma beeps_insert_chars:
  "beeps (insert_chars pos str st) =
     (if length (line st) + length str > max_sz st \<and> \<not> silent (option st)
      then beeps st + 1 else beeps st)"
  by (simp add: insert_chars_def bell_def Let_def split: prod.splits)

lemma max_sz_replace_chars [simp]: "max_sz (replace_chars pos old str st) = max_sz st"
  by (simp add: replace_chars_def Let_def)

lemma length_overwrite:
  "pos + length str \<le> length txt \<Longrightarrow> length (overwrite pos str txt) = length txt"
  by (simp add: overwrite_def)

lemma length_replace_chars:
  assumes "length (line st) \<le> max_sz st" and "pos + old \<le> length (line st)"
  shows "length (line (replace_chars pos old str st)) \<le> max_sz st"
proof (cases "old \<ge> length str")
  case True
  then show ?thesis using assms
    by (auto simp: replace_chars_def Let_def line_remove_chars length_overwrite)
next
  case False
  let ?st2 = "(set_display_marks pos (pos + old) st)\<lparr>line := overwrite pos (take old str) (line st)\<rparr>"
  have len: "length (line ?st2) = length (line st)"
    using False assms by (simp add: length_overwrite)
  have "length (line (insert_chars (pos + old) (drop old str) ?st2)) \<le> max_sz st"
    using assms len by (simp add: line_insert_chars)
  then show ?thesis using False by (simp add: replace_chars_def Let_def)
qed

lemma apply_op_capacity:
  assumes "length (line st) \<le> max_sz st" and "in_range op st"
  shows "length (line (apply_op op st)) \<le> max_sz (apply_op op st)
           \<and> max_sz (apply_op op st) = max_sz st"
proof (cases op)
  case (SetAll str)
  then show ?thesis by (simp add: line_copy_chars)
next
  case (Remove pos cnt)
  then show ?thesis using assms by (simp add: line_remove_chars)
next
  case (Insert pos str)
  then show ?thesis using assms by (simp add: line_insert_chars)
next
  case (Replace pos old str)
  then show ?thesis using assms by (simp add: length_replace_chars)
qed

lemma run_ops_capacity:
  "length (line st) \<le> max_sz st \<Longrightarrow> run_ops ops st = Some st'
     \<Longrightarrow> length (line st') \<le> max_sz st' \<and> max_sz st' = max_sz st"
proof (induction ops arbitrary: st)
  case Nil
  then show ?case by simp
next
  case (Cons op ops)
  from Cons.prems have r: "in_range op st" and run: "run_ops ops (apply_op op st) = Some st'"
    by (auto split: if_splits)
  from apply_op_capacity[OF Cons.prems(1) r] Cons.IH[OF _ run]
  show ?case by simp
qed

text \<open>
  C3, as the code has it. Starting from a line within its capacity, every
  sequence of in-range \<open>copy_chars\<close> (setAll), \<open>remove_chars\<close>, \<open>insert_chars\<close>
  and \<open>replace_chars\<close> calls leaves the length of the line at most \<open>max\<close>. An
  \<open>insert_chars\<close> keeps only the first \<open>max - line.len\<close> code units of the
  inserted text and a \<open>copy_chars\<close> only the first \<open>max\<close>, so an oversized
  request is truncated to fit, and each returns a state (there is no failure
  branch). When the request is oversized \<open>bell\<close> is called, which sounds
  \<open>MessageBeep\<close> once unless \<open>option.silent\<close> is set, and then not at all.
\<close>

theorem text_buffer_capacity:
  assumes "length (line st) \<le> max_sz st"
  shows "(\<forall>ops st'. run_ops ops st = Some st' \<longrightarrow> length (line st') \<le> max_sz st')
       \<and> (\<forall>pos str. line (insert_chars pos str st) =
             take pos (line st) @ take (max_sz st - length (line st)) str @ drop pos (line st))
       \<and> (\<forall>pos str. length (line st) + length str > max_sz st \<longrightarrow>
             beeps (insert_chars pos str st) = (if silent (option st) then beeps st else beeps st + 1))
       \<and> (\<forall>str. line (copy_chars str st) = take (max_sz st) str)
       \<and> (\<forall>str. length str > max_sz st \<longrightarrow>
             beeps (copy_chars str st) = (if silent (option st) then beeps st else beeps st + 1))"
proof (intro conjI allI impI)
  fix ops st' assume r: "run_ops ops st = Some st'"
  from run_ops_capacity[OF assms r] show "length (line st') \<le> max_sz st'" by simp
next
  fix pos and str :: string
  show "line (insert_chars pos str st) =
          take pos (line st) @ take (max_sz st - length (line st)) str @ drop pos (line st)"
    using assms by (rule line_insert_chars)
next
  fix pos :: nat and str :: string assume "length (line st) + length str > max_sz st"
  then show "beeps (insert_chars pos str st) = (if silent (option st) then beeps st else beeps st + 1)"
    by (simp add: beeps_insert_chars)
next
  fix str :: string show "line (copy_chars str st) = take (max_sz st) str" by (rule line_copy_chars)
next
  fix str :: string assume "length str > max_sz st"
  then show "beeps (copy_chars str st) = (if silent (option st) then beeps st else beeps st + 1)"
    by (simp add: beeps_copy_chars)
qed

theorem text_buffer_capacity_witness:
  "length (line stA) \<le> max_sz stA
   \<and> map_option line (run_ops opsA stA) = Some ''01234567''
   \<and> (\<exists>st'. run_ops opsA stA = Some st' \<and> length (line st') \<le> max_sz st')
   \<and> line (insert_chars 3 ''XYZW'' stA) = ''abcXYdef''
   \<and> beeps (insert_chars 3 ''XYZW'' stA) = beeps stA + 1
   \<and> line (copy_chars ''0123456789abc'' stA) = ''01234567''
   \<and> beeps (copy_chars ''0123456789abc'' stA) = beeps stA + 1"
proof -
  have h: "length (line stA) \<le> max_sz stA" by (simp add: stA_def state0_def)
  have r: "map_option line (run_ops opsA stA) = Some ''01234567''" by code_simp
  then obtain st' where s: "run_ops opsA stA = Some st'" by auto
  have big1: "length (line stA) + length ''XYZW'' > max_sz stA" by (simp add: stA_def state0_def)
  have big2: "length ''0123456789abc'' > max_sz stA" by (simp add: stA_def state0_def)
  have ns: "\<not> silent (option stA)" by (simp add: stA_def state0_def option0_def)
  note t = text_buffer_capacity[OF h]
  from t s have "length (line st') \<le> max_sz st'" by blast
  moreover from t have "line (insert_chars 3 ''XYZW'' stA) =
      take 3 (line stA) @ take (max_sz stA - length (line stA)) ''XYZW'' @ drop 3 (line stA)"
    by blast
  then have "line (insert_chars 3 ''XYZW'' stA) = ''abcXYdef''" by (simp add: stA_def state0_def)
  moreover from t big1 ns have "beeps (insert_chars 3 ''XYZW'' stA) = beeps stA + 1" by simp
  moreover from t have "line (copy_chars ''0123456789abc'' stA) = take (max_sz stA) ''0123456789abc''"
    by blast
  then have "line (copy_chars ''0123456789abc'' stA) = ''01234567''" by (simp add: stA_def state0_def)
  moreover from t big2 ns have "beeps (copy_chars ''0123456789abc'' stA) = beeps stA + 1" by simp
  ultimately show ?thesis using h r s by simp
qed

text \<open>
  C3 as stated fails where \<open>option.silent\<close> is set: the insert of \<open>XYZW\<close> into
  \<open>abcdef\<close> (capacity 8) and the setAll of thirteen code units are both
  truncated, and no alert sounds.
\<close>

theorem text_buffer_silent_counterexample:
  "length (line stA_silent) + length ''XYZW'' > max_sz stA_silent
   \<and> line (insert_chars 3 ''XYZW'' stA_silent) = ''abcXYdef''
   \<and> beeps (insert_chars 3 ''XYZW'' stA_silent) = beeps stA_silent
   \<and> length ''0123456789abc'' > max_sz stA_silent
   \<and> line (copy_chars ''0123456789abc'' stA_silent) = ''01234567''
   \<and> beeps (copy_chars ''0123456789abc'' stA_silent) = beeps stA_silent"
  by code_simp

section \<open>Properties of the history\<close>

lemma scan_history_zero:
  "n \<le> length hs \<Longrightarrow> (scan_history l hs n = 0) = (l \<notin> set (take n hs))"
proof (induction n)
  case 0
  then show ?case by simp
next
  case (Suc n)
  then show ?case by (auto simp: take_Suc_conv_app_nth)
qed

lemma scan_history_found:
  "n \<le> length hs \<Longrightarrow> scan_history l hs n = Suc i
     \<Longrightarrow> i < n \<and> hs ! i = l \<and> l \<notin> set (drop (Suc i) (take n hs))"
proof (induction n)
  case 0
  then show ?case by simp
next
  case (Suc n)
  show ?case
  proof (cases "hs ! n = l")
    case True
    with Suc.prems show ?thesis by simp
  next
    case False
    with Suc.prems have s: "scan_history l hs n = Suc i" by simp
    from Suc.prems have n: "n \<le> length hs" by simp
    from Suc.IH[OF n s] False Suc.prems(1) show ?thesis
      by (auto simp: take_Suc_conv_app_nth)
  qed
qed

lemma malloc_heap_fields [simp]:
  "history (snd (malloc st)) = history st" "line (snd (malloc st)) = line st"
  "histsize (snd (malloc st)) = histsize st" "option (snd (malloc st)) = option st"
  by (simp_all add: malloc_def split: list.splits)

lemma add_to_history_short:
  "length (line st) < min_length (option st) \<Longrightarrow> add_to_history st = Some st"
  by (simp add: add_to_history_def)

lemma add_to_history_promote:
  assumes "min_length (option st) \<le> length (line st)" and "line st \<in> set (history st)"
  shows "\<exists>ys zs. history st = ys @ line st # zs \<and> line st \<notin> set zs
            \<and> add_to_history st = Some (st\<lparr>history := ys @ zs @ [line st]\<rparr>)"
proof -
  let ?hs = "history st" and ?l = "line st"
  let ?h = "scan_history ?l ?hs (length ?hs)"
  from assms(2) have "?h \<noteq> 0" by (simp add: scan_history_zero)
  then obtain i where h: "?h = Suc i" by (cases ?h) auto
  from scan_history_found[OF _ h] have i: "i < length ?hs" "?hs ! i = ?l"
    and nz: "?l \<notin> set (drop (Suc i) ?hs)" by auto
  have split: "?hs = take i ?hs @ ?l # drop (Suc i) ?hs"
    using i by (metis id_take_nth_drop)
  have "add_to_history st = Some (st\<lparr>history := take i ?hs @ drop (Suc i) ?hs @ [?l]\<rparr>)"
    using assms(1) h i by (simp add: add_to_history_def Let_def)
  with split nz show ?thesis by blast
qed

lemma add_to_history_new:
  assumes "min_length (option st) \<le> length (line st)" and "line st \<notin> set (history st)"
    and "histsize st = int (length (history st))" and "fst (malloc st)"
  shows "map_option history (add_to_history st) =
           Some ((if histsize st = int (opt_histsize (option st)) then tl (history st) else history st)
                 @ [line st])"
proof -
  have h0: "scan_history (line st) (history st) (length (history st)) = 0"
    using assms(2) by (simp add: scan_history_zero)
  show ?thesis
  proof (cases "opt_histsize (option st) \<noteq> 0 \<and> histsize st = int (opt_histsize (option st))")
    case True
    then have ne: "history st \<noteq> []" using assms(3) by auto
    have m: "fst (malloc (st\<lparr>history := tl (history st), histsize := histsize st - 1\<rparr>))"
      using assms(4) by (simp add: malloc_def split: list.splits)
    have hn: "hist_next st 0 = 1" using ne by (simp add: hist_next_def)
    show ?thesis using assms(1) h0 True ne m hn
      by (simp add: add_to_history_def Let_def remove_from_history_def new_history_def
          split_beta drop_Suc)
  next
    case False
    then have "histsize st = int (opt_histsize (option st)) \<Longrightarrow> history st = []"
      using assms(3) by auto
    then show ?thesis using assms(1,4) h0 False
      by (auto simp: add_to_history_def Let_def new_history_def split_beta)
  qed
qed

text \<open>
  C1. With the entry counter equal to the number of entries (which every
  operation on the history maintains): a line shorter than \<open>option.min_length\<close>
  leaves the whole state unchanged; a line that is already an entry (compared
  code unit by code unit, so case matters) has its most recent occurrence
  unlinked and appended again, the other entries keeping their order and nothing
  being duplicated; a line that is no entry yet, when the count equals
  \<open>option.histsize\<close> and the node can be allocated, is appended after the oldest
  entry has been removed. Starting from the empty history with
  \<open>min_length = 1\<close>, entering \<open>abc\<close>, \<open>xyz\<close>, \<open>abc\<close> leaves exactly
  \<open>[xyz, abc]\<close>, oldest first.
\<close>

theorem add_to_history_correct:
  assumes "histsize st = int (length (history st))"
  shows "(length (line st) < min_length (option st) \<longrightarrow> add_to_history st = Some st)
       \<and> (min_length (option st) \<le> length (line st) \<and> line st \<in> set (history st) \<longrightarrow>
            (\<exists>ys zs. history st = ys @ line st # zs \<and> line st \<notin> set zs
               \<and> add_to_history st = Some (st\<lparr>history := ys @ zs @ [line st]\<rparr>)))
       \<and> (min_length (option st) \<le> length (line st) \<and> line st \<notin> set (history st)
            \<and> fst (malloc st) \<and> histsize st = int (opt_histsize (option st)) \<longrightarrow>
            map_option history (add_to_history st) = Some (tl (history st) @ [line st]))
       \<and> map_option history
            (Option.bind (Option.bind (enter ''abc'' state0) (enter ''xyz'')) (enter ''abc''))
          = Some [''xyz'', ''abc'']"
proof (intro conjI impI)
  assume "length (line st) < min_length (option st)"
  then show "add_to_history st = Some st" by (rule add_to_history_short)
next
  assume "min_length (option st) \<le> length (line st) \<and> line st \<in> set (history st)"
  then show "\<exists>ys zs. history st = ys @ line st # zs \<and> line st \<notin> set zs
               \<and> add_to_history st = Some (st\<lparr>history := ys @ zs @ [line st]\<rparr>)"
    by (simp add: add_to_history_promote)
next
  assume a: "min_length (option st) \<le> length (line st) \<and> line st \<notin> set (history st)
            \<and> fst (malloc st) \<and> histsize st = int (opt_histsize (option st))"
  then have "map_option history (add_to_history st) =
           Some ((if histsize st = int (opt_histsize (option st)) then tl (history st) else history st)
                 @ [line st])"
    using assms by (intro add_to_history_new) simp_all
  with a show "map_option history (add_to_history st) = Some (tl (history st) @ [line st])"
    by simp
next
  show "map_option history
            (Option.bind (Option.bind (enter ''abc'' state0) (enter ''xyz'')) (enter ''abc''))
          = Some [''xyz'', ''abc'']"
    by code_simp
qed

theorem add_to_history_correct_witness:
  "histsize stH = int (length (history stH))
   \<and> add_to_history (stH\<lparr>line := []\<rparr>) = Some (stH\<lparr>line := []\<rparr>)
   \<and> map_option history (add_to_history (stH\<lparr>line := ''dir''\<rparr>)) = Some [''cls'', ''dir'']
   \<and> map_option history (add_to_history (stH\<lparr>line := ''ver''\<rparr>)) = Some [''cls'', ''ver'']"
proof -
  have h: "histsize stH = int (length (history stH))"
    by (simp add: stH_def state0_def)
  have h1: "histsize (stH\<lparr>line := []\<rparr>) = int (length (history (stH\<lparr>line := []\<rparr>)))"
    and h2: "histsize (stH\<lparr>line := ''dir''\<rparr>) = int (length (history (stH\<lparr>line := ''dir''\<rparr>)))"
    and h3: "histsize (stH\<lparr>line := ''ver''\<rparr>) = int (length (history (stH\<lparr>line := ''ver''\<rparr>)))"
    using h by simp_all
  have a: "add_to_history (stH\<lparr>line := []\<rparr>) = Some (stH\<lparr>line := []\<rparr>)"
    using add_to_history_correct[OF h1] by (simp add: stH_def state0_def option0_def)
  from add_to_history_correct[OF h2]
  obtain ys zs where yz: "[''dir'', ''cls''] = ys @ ''dir'' # zs" "''dir'' \<notin> set zs"
      "add_to_history (stH\<lparr>line := ''dir''\<rparr>) = Some (stH\<lparr>line := ''dir'', history := ys @ zs @ [''dir'']\<rparr>)"
    by (auto simp: stH_def state0_def option0_def)
  from yz(1,2) have "ys = [] \<and> zs = [''cls'']"
    by (auto simp: Cons_eq_append_conv)
  with yz(3) have b: "map_option history (add_to_history (stH\<lparr>line := ''dir''\<rparr>)) = Some [''cls'', ''dir'']"
    by simp
  have c: "map_option history (add_to_history (stH\<lparr>line := ''ver''\<rparr>)) = Some [''cls'', ''ver'']"
    using add_to_history_correct[OF h3]
    by (simp add: stH_def state0_def option0_def malloc_def)
  from h a b c show ?thesis by simp
qed

lemma towlower_NUL [simp]: "(towlower c = NUL) = (c = NUL)"
proof -
  have "char_of (of_char c + 32 :: nat) \<noteq> NUL" if "65 \<le> (of_char c :: nat)" "(of_char c :: nat) \<le> 90"
  proof
    assume "char_of (of_char c + 32 :: nat) = NUL"
    then have "(of_char (char_of (of_char c + 32 :: nat) :: char) :: nat) = of_char NUL" by simp
    then have "(of_char c + 32 :: nat) mod 256 = 0" by simp
    with that show False by simp
  qed
  moreover have "c \<noteq> NUL" if "65 \<le> (of_char c :: nat)"
    using that by auto
  ultimately show ?thesis by (auto simp: towlower_def Let_def)
qed

lemma wcsnicmp_zero_iff:
  "n \<le> length a \<Longrightarrow> n \<le> length b \<Longrightarrow> NUL \<notin> set (take n b)
     \<Longrightarrow> (wcsnicmp a b n = 0) = (map towlower (take n a) = map towlower (take n b))"
proof (induction n arbitrary: a b)
  case 0
  then show ?case by simp
next
  case (Suc n)
  then obtain x as y bs where a: "a = x # as" and b: "b = y # bs"
    by (cases a; cases b) auto
  from Suc.prems b have y: "y \<noteq> NUL" by auto
  from Suc.prems a b have p: "n \<le> length as" "n \<le> length bs" "NUL \<notin> set (take n bs)" by auto
  show ?case
    using Suc.IH[OF p] y by (auto simp: a b Let_def at_nul_def)
qed

lemma search_from_steps:
  fixes g :: "nat \<Rightarrow> nat" and P :: "nat \<Rightarrow> bool"
  assumes step: "\<And>k. k < N \<Longrightarrow> (if bck then hist_prev st (g k) else hist_next st (g k)) = g (Suc k)"
    and wrap: "\<And>k. k < N \<Longrightarrow> (g (Suc k) = hist) = (Suc k = N)"
    and P: "\<And>h. P h = (length (hist_line st h) \<ge> len \<and> wcsnicmp (hist_line st h) (line st) len = 0)"
  shows "k < N \<Longrightarrow> search_from st hist len bck (g k) = Some (List.find P (map g [Suc k..<Suc N]))"
proof (induction "N - k" arbitrary: k)
  case 0
  then show ?case by simp
next
  case (Suc d)
  from Suc.prems have upt: "[Suc k..<Suc N] = Suc k # [Suc (Suc k)..<Suc N]"
    by (simp add: upt_conv_Cons)
  show ?case
  proof (cases "P (g (Suc k))")
    case True
    then show ?thesis
      unfolding upt using step[OF Suc.prems]
      by (subst search_from.simps) (simp add: Let_def P[symmetric] del: upt_Suc)
  next
    case False
    show ?thesis
    proof (cases "Suc k = N")
      case True
      then have "g (Suc k) = hist" using wrap[OF Suc.prems] by simp
      then show ?thesis unfolding upt using False True step[OF Suc.prems]
        by (subst search_from.simps) (simp add: Let_def P[symmetric] del: upt_Suc)
    next
      case F2: False
      then have ne: "g (Suc k) \<noteq> hist" using wrap[OF Suc.prems] by simp
      from F2 Suc.prems have lt: "Suc k < N" by simp
      from Suc.hyps(2) have d: "d = N - Suc k" by simp
      from Suc.hyps(1)[OF d lt] show ?thesis unfolding upt using False ne step[OF Suc.prems]
        by (subst search_from.simps) (simp add: Let_def P[symmetric] del: upt_Suc)
    qed
  qed
qed


lemma mod_ring_eq:
  assumes "hist < N" and "j \<le> N"
  shows "((hist + j) mod N = hist) = (j = 0 \<or> j = (N::nat))"
proof (cases "hist + j < N")
  case True
  then show ?thesis using assms by auto
next
  case False
  then have "(hist + j) mod N = (hist + j - N) mod N" by (simp add: le_mod_geq)
  moreover have "hist + j - N < N" using assms by simp
  ultimately have "(hist + j) mod N = hist + j - N" by simp
  then show ?thesis using False assms by auto
qed

lemma ring_forward:
  assumes "hist < N" and "k < N"
  shows "((hist + k) mod N + 1) mod N = (hist + Suc k) mod N"
    and "((hist + Suc k) mod N = hist) = (Suc k = N)"
proof -
  show "((hist + k) mod N + 1) mod N = (hist + Suc k) mod N"
    by (simp add: mod_Suc_eq)
  show "((hist + Suc k) mod N = hist) = (Suc k = N)"
    using mod_ring_eq[of hist N "Suc k"] assms by simp
qed

lemma ring_backward:
  assumes "hist < N" and "k < N"
  shows "((hist + (N - k)) mod N + (N - 1)) mod N = (hist + (N - Suc k)) mod N"
    and "((hist + (N - Suc k)) mod N = hist) = (Suc k = N)"
proof -
  have "((hist + (N - k)) mod N + (N - 1)) mod N = (hist + (N - k) + (N - 1)) mod N"
    by (simp add: mod_add_left_eq)
  also have "hist + (N - k) + (N - 1) = (hist + (N - Suc k)) + N" using assms by simp
  also have "\<dots> mod N = (hist + (N - Suc k)) mod N" by simp
  finally show "((hist + (N - k)) mod N + (N - 1)) mod N = (hist + (N - Suc k)) mod N" .
  show "((hist + (N - Suc k)) mod N = hist) = (Suc k = N)"
    using mod_ring_eq[of hist N "N - Suc k"] assms by auto
qed

lemma search_history_visits:
  assumes "hist \<le> length (history st)"
  shows "search_history st hist len bck =
    Some (List.find (\<lambda>h. length (hist_line st h) \<ge> len \<and> wcsnicmp (hist_line st h) (line st) len = 0)
            (ring_order st hist bck))"
proof -
  let ?N = "length (history st) + 1"
  let ?g = "\<lambda>k. if bck then (hist + (?N - k)) mod ?N else (hist + k) mod ?N"
  let ?P = "\<lambda>h. length (hist_line st h) \<ge> len \<and> wcsnicmp (hist_line st h) (line st) len = 0"
  have h: "hist < ?N" using assms by simp
  have "(hist + ?N) mod ?N = hist" using h by (simp del: add_Suc_right One_nat_def)
  then have g0: "?g 0 = hist" using h by (simp del: add_Suc_right)
  have step: "(if bck then hist_prev st (?g k) else hist_next st (?g k)) = ?g (Suc k)" if "k < ?N" for k
    using ring_forward(1)[OF h that] ring_backward(1)[OF h that]
    by (simp add: hist_prev_def hist_next_def)
  have wrap: "(?g (Suc k) = hist) = (Suc k = ?N)" if "k < ?N" for k
    using ring_forward(2)[OF h that] ring_backward(2)[OF h that] by simp
  have "0 < ?N" by simp
  from search_from_steps[of ?N bck st ?g hist ?P len 0, OF step wrap _ this]
  have "search_from st hist len bck (?g 0) = Some (List.find ?P (map ?g [Suc 0..<Suc ?N]))"
    by simp
  then show ?thesis by (simp only: g0 search_history_def ring_order_def Let_def) simp
qed

lemma begins_with_wcsnicmp:
  assumes "len \<le> length (line st)" and "NUL \<notin> set (take len (line st))"
  shows "(length txt \<ge> len \<and> wcsnicmp txt (line st) len = 0) = begins_with txt (take len (line st))"
proof (cases "len \<le> length txt")
  case True
  from wcsnicmp_zero_iff[OF True assms] True assms(1) show ?thesis
    by (simp add: begins_with_def min_absorb2)
next
  case False
  then show ?thesis using assms(1) by (simp add: begins_with_def min_absorb2)
qed

lemma find_filter:
  "(\<And>x. P x \<Longrightarrow> Q x) \<Longrightarrow> List.find P (filter Q xs) = List.find P xs"
  by (induction xs) auto

lemma ring_order_first:
  "ring_order st hist bck \<noteq> [] \<and> hd (ring_order st hist bck) = (if bck then hist_prev st hist else hist_next st hist)"
proof -
  let ?N = "length (history st) + 1"
  have u: "[1..<?N + 1] = 1 # [Suc 1..<?N + 1]" by (simp add: upt_conv_Cons del: upt_Suc)
  show ?thesis
    unfolding ring_order_def Let_def u by (simp add: hist_prev_def hist_next_def del: upt_Suc)
qed

text \<open>
  C7, as the code has it. For every history, every position \<open>hist\<close> on its ring
  (an entry or the sentinel) and both directions, \<open>search_history\<close> returns.
  With a prefix of at least one code unit (within the line, and holding no
  \<open>NUL\<close>, at which \<open>_wcsnicmp\<close> would stop comparing) what it returns is the
  first entry, in the ring order that starts right after (before) \<open>hist\<close> and
  wraps round once back to \<open>hist\<close>, whose text begins, ignoring case, with the
  first \<open>len\<close> code units of the line, or \<open>NULL\<close> when there is none. With a
  prefix of length 0 nothing is compared: the node next to \<open>hist\<close> on the ring
  is returned, be it an entry or the sentinel.
\<close>

theorem search_history_correct:
  assumes "hist \<le> length (history st)" and "len \<le> length (line st)"
    and "NUL \<notin> set (take len (line st))"
  shows "(0 < len \<longrightarrow> search_history st hist len bck = Some (search_spec st hist len bck))
       \<and> (len = 0 \<longrightarrow> search_history st hist len bck
                         = Some (Some (if bck then hist_prev st hist else hist_next st hist)))"
proof (intro conjI impI)
  assume l: "0 < len"
  let ?P = "\<lambda>h. begins_with (hist_line st h) (take len (line st))"
  have "?P x \<Longrightarrow> x \<noteq> 0" for x
    using l assms(2) by (auto simp: begins_with_def hist_line_def split: if_splits)
  from find_filter[of ?P "\<lambda>h. h \<noteq> 0", OF this]
  show "search_history st hist len bck = Some (search_spec st hist len bck)"
    by (simp add: search_history_visits[OF assms(1)] search_spec_def visit_order_def
        begins_with_wcsnicmp[OF assms(2,3)])
next
  assume l: "len = 0"
  obtain x xs where r: "ring_order st hist bck = x # xs"
    and x: "x = (if bck then hist_prev st hist else hist_next st hist)"
    using ring_order_first[of st hist bck] by (cases "ring_order st hist bck") auto
  show "search_history st hist len bck
          = Some (Some (if bck then hist_prev st hist else hist_next st hist))"
    unfolding search_history_visits[OF assms(1)] r using l x by simp
qed

theorem search_history_correct_witness:
  "(3::nat) \<le> length (history stS) \<and> (2::nat) \<le> length (line stS) \<and> NUL \<notin> set (take 2 (line stS))
   \<and> visit_order stS 3 False = [1, 2, 3] \<and> visit_order stS 0 True = [3, 2, 1]
   \<and> search_history stS 3 2 False = Some (Some 1)
   \<and> search_history stS 0 2 True = Some (Some 3)
   \<and> search_history (stS\<lparr>line := ''xy''\<rparr>) 1 2 True = Some None
   \<and> search_history stS 1 0 False = Some (Some 2)"
proof -
  have h: "(3::nat) \<le> length (history stS)" "(0::nat) \<le> length (history stS)"
      "(2::nat) \<le> length (line stS)" "NUL \<notin> set (take 2 (line stS))"
      "(1::nat) \<le> length (history stS)"
      "(0::nat) \<le> length (line stS)" "NUL \<notin> set (take 0 (line stS))"
    by (simp_all add: stS_def state0_def)
  have h': "(1::nat) \<le> length (history (stS\<lparr>line := ''xy''\<rparr>))"
      "(2::nat) \<le> length (line (stS\<lparr>line := ''xy''\<rparr>))"
      "NUL \<notin> set (take 2 (line (stS\<lparr>line := ''xy''\<rparr>)))"
    by (simp_all add: stS_def state0_def)
  have v: "visit_order stS 3 False = [1, 2, 3]" "visit_order stS 0 True = [3, 2, 1]"
    by code_simp+
  have s1: "search_spec stS 3 2 False = Some 1" by code_simp
  have s2: "search_spec stS 0 2 True = Some 3" by code_simp
  have s3: "search_spec (stS\<lparr>line := ''xy''\<rparr>) 1 2 True = None" by code_simp
  have n: "hist_next stS 1 = 2" by code_simp
  from search_history_correct[OF h(1,3,4), of False] s1
  have a: "search_history stS 3 2 False = Some (Some 1)" by simp
  from search_history_correct[OF h(2,3,4), of True] s2
  have b: "search_history stS 0 2 True = Some (Some 3)" by simp
  from search_history_correct[OF h', of True] s3
  have c: "search_history (stS\<lparr>line := ''xy''\<rparr>) 1 2 True = Some None" by simp
  from search_history_correct[OF h(5,6,7), of False] n
  have d: "search_history stS 1 0 False = Some (Some 2)" by simp
  from h v a b c d show ?thesis by simp
qed

text \<open>
  With a prefix of length 0 the search that starts at the newest entry and goes
  forward returns the sentinel, which is no entry, where the first entry visited
  is the oldest one; and in an empty history it returns the sentinel where there
  is no entry to return.
\<close>

theorem search_history_sentinel_counterexample:
  "search_history stS 3 0 False = Some (Some 0) \<and> search_spec stS 3 0 False = Some 1
   \<and> history state0 = [] \<and> search_history state0 0 0 False = Some (Some 0)
   \<and> search_spec state0 0 0 False = None"
  by code_simp

section \<open>Properties of the comparison of names\<close>

lemma wcsnicmp_key:
  "length a = n \<Longrightarrow> length b = n \<Longrightarrow>
     (wcsnicmp a b n = 0) = (takeWhile (\<lambda>c. c \<noteq> NUL) (map towlower a) = takeWhile (\<lambda>c. c \<noteq> NUL) (map towlower b))"
proof (induction n arbitrary: a b)
  case 0
  then show ?case by simp
next
  case (Suc n)
  then obtain x as y bs where a: "a = x # as" and b: "b = y # bs"
    by (cases a; cases b) auto
  from Suc.prems a b have p: "length as = n" "length bs = n" by auto
  note IH = Suc.IH[OF p]
  have inj: "(int (of_char (towlower x)) - int (of_char (towlower y)) = 0) = (towlower x = towlower y)"
    by simp
  show ?case
  proof (cases "towlower x = towlower y")
    case False
    then have "\<not> (x = NUL \<and> y = NUL)" by auto
    with False show ?thesis unfolding a b by (auto simp: Let_def at_nul_def)
  next
    case True
    show ?thesis
    proof (cases "x = NUL")
      case xn: True
      with True have "y = NUL" by (metis towlower_NUL)
      with xn show ?thesis unfolding a b by (simp add: Let_def at_nul_def)
    next
      case xn: False
      with True have "y \<noteq> NUL" by (metis towlower_NUL)
      with xn True IH show ?thesis unfolding a b by (simp add: Let_def at_nul_def)
    qed
  qed
qed

lemma wcsnicmp_take: "wcsnicmp a b n = wcsnicmp a (take n b) n"
proof (induction n arbitrary: a b)
  case 0
  then show ?case by simp
next
  case (Suc n)
  show ?case
  proof (cases b)
    case Nil
    then show ?thesis by simp
  next
    case (Cons y bs)
    then show ?thesis using Suc.IH[of "tl a" bs] by (simp add: at_nul_def Let_def)
  qed
qed

lemma same_name_nkey:
  "length n = cnt \<Longrightarrow> same_name n cnt d = (nkey (name d) = nkey n)"
  using wcsnicmp_key[of "name d" cnt n] by (auto simp: same_name_def nkey_def)

lemma same_name_line:
  assumes "length (take cnt txt) = cnt"
  shows "same_name txt cnt d = (nkey (name d) = nkey (take cnt txt))"
proof -
  have "same_name txt cnt d = same_name (take cnt txt) cnt d"
    using wcsnicmp_take[of "name d" "txt" cnt] by (simp add: same_name_def)
  then show ?thesis using same_name_nkey[OF assms] by simp
qed

section \<open>Properties of the variable substitution\<close>

lemma expand_vars_loop_end:
  "length (line st) \<le> pos \<Longrightarrow> expand_vars_loop e pos start st = Some st"
  by (subst expand_vars_loop.simps) simp

lemma expand_vars_loop_skip:
  assumes "pos < length (line st)" and "line st ! pos \<noteq> ESCAPE" and "line st ! pos \<noteq> VARIABLE"
  shows "expand_vars_loop e pos start st = expand_vars_loop e (pos + 1) start st"
  using assms by (subst expand_vars_loop.simps) simp

lemma expand_vars_loop_run:
  assumes "line st = pre @ run @ post" and "ESCAPE \<notin> set run" and "VARIABLE \<notin> set run"
  shows "expand_vars_loop e (length pre) start st = expand_vars_loop e (length pre + length run) start st"
  using assms
proof (induction run arbitrary: pre)
  case Nil
  then show ?case by simp
next
  case (Cons c run)
  have l: "line st = (pre @ [c]) @ run @ post" using Cons.prems(1) by simp
  have "expand_vars_loop e (length pre) start st = expand_vars_loop e (length pre + 1) start st"
    using Cons.prems by (intro expand_vars_loop_skip) (auto simp: nth_append)
  also have "\<dots> = expand_vars_loop e (length (pre @ [c]) + length run) start st"
    using Cons.IH[OF l] Cons.prems by simp
  finally show ?case by simp
qed

lemma line_replace_chars:
  assumes "pos + old \<le> length (line st)" and "length (line st) \<le> max_sz st"
    and "length (line st) - old + length str \<le> max_sz st"
  shows "line (replace_chars pos old str st) = take pos (line st) @ str @ drop (pos + old) (line st)"
proof (cases "old \<ge> length str")
  case True
  then show ?thesis using assms
    by (auto simp: replace_chars_def Let_def line_remove_chars overwrite_def add.commute)
next
  case False
  let ?st2 = "(set_display_marks pos (pos + old) st)\<lparr>line := overwrite pos (take old str) (line st)\<rparr>"
  have len: "length (line ?st2) = length (line st)"
    using False assms by (simp add: length_overwrite)
  have fit: "max_sz ?st2 - length (line ?st2) \<ge> length (drop old str)"
    using assms False len by simp
  have "line (insert_chars (pos + old) (drop old str) ?st2)
        = take (pos + old) (line ?st2) @ drop old str @ drop (pos + old) (line ?st2)"
    using assms len fit by (subst line_insert_chars) simp_all
  also have "\<dots> = take pos (line st) @ str @ drop (pos + old) (line st)"
    using False assms by (simp add: overwrite_def min_absorb2)
  finally show ?thesis using False by (simp add: replace_chars_def Let_def)
qed


lemma un_escape_none: "ESCAPE \<notin> set (line st) \<Longrightarrow> un_escape unq st = st"
  by (simp add: un_escape_def)

lemma get_env_var_fields [simp]:
  "line (snd (get_env_var v st)) = line st" "max_sz (snd (get_env_var v st)) = max_sz st"
  "sym_head (snd (get_env_var v st)) = sym_head st"
  by (simp_all add: get_env_var_def Let_def malloc_def split: list.splits)

lemma find_define_fields [simp]:
  "line (snd (find_define h pos cnt st)) = line st" "max_sz (snd (find_define h pos cnt st)) = max_sz st"
  by (cases h; simp add: find_define_def split: option.splits)+

lemma wcsnicmp_append:
  "n \<le> length b \<Longrightarrow> wcsnicmp a (b @ c) n = wcsnicmp a b n"
proof (induction n arbitrary: a b)
  case 0
  then show ?case by simp
next
  case (Suc n)
  then obtain y bs where b: "b = y # bs" by (cases b) auto
  with Suc show ?case by (simp add: at_nul_def Let_def)
qed

lemma same_name_append:
  "same_name (nm @ rest) (length nm) d = same_name nm (length nm) d"
  by (simp add: same_name_def wcsnicmp_append)

lemma find_dropWhile:
  "List.find P ds = (case dropWhile (\<lambda>d. \<not> P d) ds of [] \<Rightarrow> None | d # _ \<Rightarrow> Some d)"
  by (induction ds) simp_all

lemma move_to_head_find:
  "move_to_head P ds = (case List.find P ds of None \<Rightarrow> None
      | Some d \<Rightarrow> Some (d # takeWhile (\<lambda>d. \<not> P d) ds @ tl (dropWhile (\<lambda>d. \<not> P d) ds)))"
  by (cases "dropWhile (\<lambda>d. \<not> P d) ds") (simp_all only: move_to_head_def find_dropWhile list.case option.case list.sel)


lemma expand_vars_loop_rest:
  assumes "ESCAPE \<notin> set (drop pos (line st))" and "VARIABLE \<notin> set (drop pos (line st))"
  shows "expand_vars_loop e pos start st = Some st"
proof (cases "pos \<le> length (line st)")
  case True
  have l: "line st = take pos (line st) @ drop pos (line st) @ []" by simp
  from expand_vars_loop_run[OF l assms, of e start] True
  have "expand_vars_loop e pos start st = expand_vars_loop e (length (line st)) start st"
    by (simp add: min_absorb2)
  then show ?thesis by (simp add: expand_vars_loop_end)
next
  case False
  then show ?thesis by (simp add: expand_vars_loop_end)
qed

lemma expand_vars_loop_token:
  assumes l: "line st = pre @ VARIABLE # nm @ VARIABLE # post"
    and free: "ESCAPE \<notin> set (pre @ nm)" "VARIABLE \<notin> set (pre @ nm)"
  shows "expand_vars_loop e 0 None st =
     (let pos = length pre + length nm + 2;
          ev = (if e then get_env_var nm st else ([], st));
          d = find_define Sym (length pre + 1) (length nm) (snd ev)
      in if fst ev \<noteq> []
         then expand_vars_loop e pos None (replace_chars (length pre) (length nm + 2) (fst ev) (snd ev))
         else if \<not> fst d then expand_vars_loop e pos (Some pos) (snd d)
         else if dline (hd (sym_head (snd d))) = [] then None
         else if hd (dline (hd (sym_head (snd d)))) \<noteq> []
         then expand_vars_loop e pos None
                (replace_chars (length pre) (length nm + 2) (hd (dline (hd (sym_head (snd d))))) (snd d))
         else expand_vars_loop e pos (Some pos) (snd d))"
proof -
  let ?p = "length pre" and ?c = "length nm"
  have l0: "line st = [] @ pre @ (VARIABLE # nm @ VARIABLE # post)" using l by simp
  have A: "expand_vars_loop e 0 None st = expand_vars_loop e ?p None st"
    using expand_vars_loop_run[OF l0, of e None] free by simp
  have B: "expand_vars_loop e ?p None st = expand_vars_loop e (?p + 1) (Some (?p + 1)) st"
    using l by (subst expand_vars_loop.simps) (simp add: nth_append)
  have l1: "line st = (pre @ [VARIABLE]) @ nm @ (VARIABLE # post)" using l by simp
  have C: "expand_vars_loop e (?p + 1) (Some (?p + 1)) st
           = expand_vars_loop e (?p + 1 + ?c) (Some (?p + 1)) st"
    using expand_vars_loop_run[OF l1, of e "Some (?p + 1)"] free by simp
  have at: "line st ! (?p + 1 + ?c) = VARIABLE" "?p + 1 + ?c < length (line st)"
    using l by (simp_all add: nth_append)
  have nm: "take ?c (drop (?p + 1) (line st)) = nm" using l by simp
  have ne: "(VARIABLE = ESCAPE) = False" by simp
  have cnt: "?p + 1 + ?c - (?p + 1) = ?c" "?p + 1 - 1 = ?p" "?p + 1 + ?c + 1 = ?p + ?c + 2" by simp_all
  show ?thesis unfolding A B C
    apply (subst expand_vars_loop.simps)
    apply (simp only: at if_True cnt option.case)
    apply (simp only: Let_def nm ne if_False simp_thms if_True)
    done
qed


lemma same_name_append_fun:
  "same_name (nm @ rest) (length nm) = same_name nm (length nm)"
  by (rule ext) (rule same_name_append)

lemma find_define_Sym:
  assumes "drop pos (line st) = nm @ rest"
  shows "find_define Sym pos (length nm) st =
     (case List.find (same_name nm (length nm)) (sym_head st) of
        None \<Rightarrow> (False, st)
      | Some d \<Rightarrow> (True, st\<lparr>sym_head := d # takeWhile (\<lambda>d. \<not> same_name nm (length nm) d) (sym_head st)
                                   @ tl (dropWhile (\<lambda>d. \<not> same_name nm (length nm) d) (sym_head st))\<rparr>))"
  by (simp add: find_define_def assms same_name_append_fun move_to_head_find split: option.splits)

lemma expand_vars_finish:
  assumes "expand_vars_loop e 0 None st = expand_vars_loop e pos start st'"
    and "ESCAPE \<notin> set (line st')" and "VARIABLE \<notin> set (drop pos (line st'))"
  shows "map_option line (expand_vars e st) = Some (line st')"
proof -
  have "ESCAPE \<notin> set (drop pos (line st'))"
    using assms(2) by (auto dest: in_set_dropD)
  then have "expand_vars_loop e pos start st' = Some st'"
    using assms(3) by (rule expand_vars_loop_rest)
  with assms(1,2) show ?thesis by (simp add: expand_vars_def un_escape_none)
qed





text \<open>
  C5. With the symbol \<open>sym\<close> defined as \<open>-expansion-\<close>, the pass on the line
  \<open>%sym%sym%\<close> gives exactly \<open>-expansion-sym%\<close>, whichever flag it is run with
  (no environment variable is named \<open>sym\<close>): the first token is replaced, the
  rest is left, the last \<open>%\<close> as a literal character.
\<close>

theorem expand_vars_sym_scenario:
  "sym_head stV = [\<lparr>name = ''sym'', dline = [''-expansion-'']\<rparr>]
   \<and> line stV = ''%sym%sym%''
   \<and> map_option line (expand_vars False stV) = Some ''-expansion-sym%''
   \<and> map_option line (expand_vars True stV) = Some ''-expansion-sym%''"
  by code_simp

section \<open>Properties of the symbol and macro tables\<close>

lemma in_table_kc: "in_table n ds = kc (nkey n) ds"
proof -
  have "same_name n (length n) = (\<lambda>d. nkey (name d) = nkey n)"
    by (rule ext) (simp add: same_name_nkey)
  then show ?thesis by (simp add: in_table_def kc_def)
qed

lemma kc_pos: "0 < kc k ds \<Longrightarrow> \<exists>d\<in>set ds. nkey (name d) = k"
  by (induction ds) (auto simp: kc_def split: if_splits)

lemma one_table_tinv: "one_table st = tinv (sym_head st) (mac_head st)"
proof
  assume o: "one_table st"
  show "tinv (sym_head st) (mac_head st)" unfolding tinv_def
  proof
    fix k
    show "kc k (sym_head st) + kc k (mac_head st) \<le> 1"
    proof (cases "kc k (sym_head st) + kc k (mac_head st) = 0")
      case True
      then show ?thesis by simp
    next
      case False
      then have "0 < kc k (sym_head st) \<or> 0 < kc k (mac_head st)" by auto
      then have "\<exists>d::Define. nkey (name d) = k" by (auto dest!: kc_pos)
      then obtain d :: Define where "nkey (name d) = k" ..
      then show ?thesis using o by (auto simp: one_table_def in_table_kc)
    qed
  qed
next
  assume "tinv (sym_head st) (mac_head st)"
  then show "one_table st" unfolding one_table_def in_table_kc tinv_def by blast
qed

lemma kc_Cons: "kc k (d # ds) = (if nkey (name d) = k then Suc (kc k ds) else kc k ds)"
  by (simp add: kc_def)

lemma kc_move_to_head:
  "move_to_head P ds = Some ds' \<Longrightarrow> kc k ds' = kc k ds"
proof -
  assume m: "move_to_head P ds = Some ds'"
  let ?R = "\<lambda>d. \<not> P d"
  from m obtain d rest where dw: "dropWhile ?R ds = d # rest" and ds': "ds' = d # takeWhile ?R ds @ rest"
    by (auto simp: move_to_head_def split: list.splits)
  have "kc k ds = kc k (takeWhile ?R ds @ dropWhile ?R ds)" by simp
  also have "\<dots> = kc k ds'" unfolding dw ds' by (simp add: kc_def)
  finally show ?thesis by simp
qed

lemma move_to_head_Some_hd:
  "move_to_head P ds = Some ds' \<Longrightarrow> ds' \<noteq> [] \<and> P (hd ds')"
proof -
  assume m: "move_to_head P ds = Some ds'"
  let ?R = "\<lambda>d. \<not> P d"
  from m obtain d rest where dw: "dropWhile ?R ds = d # rest" and ds': "ds' = d # takeWhile ?R ds @ rest"
    by (auto simp: move_to_head_def split: list.splits)
  have "dropWhile ?R ds \<noteq> []" using dw by simp
  from hd_dropWhile[OF this] dw have "P d" by simp
  with ds' show ?thesis by simp
qed

lemma move_to_head_None:
  "move_to_head P ds = None \<Longrightarrow> \<forall>d\<in>set ds. \<not> P d"
  by (auto simp: move_to_head_def dropWhile_eq_Nil_conv split: list.splits)

lemma kc_zero: "(\<forall>d\<in>set ds. nkey (name d) \<noteq> k) \<Longrightarrow> kc k ds = 0"
  by (induction ds) (auto simp: kc_def)

lemma tables_simps [simp]:
  "tables (bell st) = tables st"
  "tables (set_display_marks b e st) = tables st"
  "tables (st\<lparr>line := l\<rparr>) = tables st"
  "tables (st\<lparr>found_quote := q\<rparr>) = tables st"
  "tables (st\<lparr>kbd := kb\<rparr>) = tables st"
  "tables (st\<lparr>mcmd := mc\<rparr>) = tables st"
  "tables (st\<lparr>typed := ty\<rparr>) = tables st"
  "tables (st\<lparr>macro_stk := ms\<rparr>) = tables st"
  "tables (st\<lparr>def_macro := dm\<rparr>) = tables st"
  "tables (st\<lparr>history := hs\<rparr>) = tables st"
  "tables (st\<lparr>histsize := hz\<rparr>) = tables st"
  "tables (st\<lparr>cmdfile := cf\<rparr>) = tables st"
  "tables (st\<lparr>show_prompt := sp\<rparr>) = tables st"
  "tables (st\<lparr>max_sz := mx\<rparr>) = tables st"
  "tables (write_console msg st) = tables st"
  "tables (snd (malloc st)) = tables st"
  "tables (printf msg st) = tables st"
  by (simp_all add: tables_def bell_def set_display_marks_def Let_def malloc_def printf_def
      write_console_def split: list.splits)

lemma tables_buffer [simp]:
  "tables (copy_chars str st) = tables st"
  "tables (remove_chars pos cnt st) = tables st"
  "tables (insert_chars pos str st) = tables st"
  by (simp_all add: copy_chars_def remove_chars_def insert_chars_def Let_def split: prod.splits)

lemma tables_replace_chars [simp]: "tables (replace_chars pos old str st) = tables st"
  by (simp add: replace_chars_def Let_def)

lemma tables_un_escape_loop [simp]: "tables (un_escape_loop unq pos quote st) = tables st"
  by (induction unq pos quote st rule: un_escape_loop.induct)
     (subst un_escape_loop.simps, auto)

lemma tables_un_escape [simp]: "tables (un_escape unq st) = tables st"
  by (simp add: un_escape_def)

lemma tables_pop_macro [simp]: "tables (pop_macro st) = tables st"
  by (simp add: pop_macro_def split: list.splits)

lemma tables_add_to_history: "add_to_history st = Some st' \<Longrightarrow> tables st' = tables st"
  by (auto simp: add_to_history_def Let_def remove_from_history_def new_history_def split_beta
      split: if_splits option.splits)

lemma tables_edit_line: "edit_line st = Some st' \<Longrightarrow> tables st' = tables st"
  by (auto simp: edit_line_def Let_def dest!: tables_add_to_history split: list.splits if_splits)

lemma tables_get_string_step:
  "tables (gs_st (snd (get_string_step keep start v))) = tables (gs_st v)"
  by (cases v) (simp add: gs_st_def get_string_step_def split: option.splits)

lemma tables_get_string_loop:
  assumes "get_string_loop keep start v = Some v'"
  shows "tables (gs_st v') = tables (gs_st v)"
  using assms
proof (induction rule: get_string_loop.raw_induct[rotated 1, consumes 1])
  case (1 f keep start v v')
  show ?case
  proof (cases "fst (get_string_step keep start v)")
    case True
    with 1(2) have "v' = snd (get_string_step keep start v)" by (simp add: Let_def)
    then show ?thesis by (simp only: tables_get_string_step)
  next
    case False
    with 1(2) have "f keep start (snd (get_string_step keep start v)) = Some v'" by (simp add: Let_def)
    from 1(1)[OF this] show ?thesis by (simp only: tables_get_string_step)
  qed
qed

lemma tables_get_string:
  "get_string pos keep st = Some (a, c, st') \<Longrightarrow> tables st' = tables st"
  by (auto simp: get_string_def Let_def gs_st_def dest!: tables_get_string_loop
      split: option.splits if_splits)

lemma tables_nth_arg:
  "nth_arg n a c st = Some (a', c', st') \<Longrightarrow> tables st' = tables st"
proof (induction n arbitrary: a c st)
  case 0
  then show ?case by simp
next
  case (Suc n)
  from Suc.prems obtain a1 c1 st1 where g: "get_string (a + c) True st = Some (a1, c1, st1)"
    and r: "nth_arg n a1 c1 st1 = Some (a', c', st')"
    by (auto split: option.splits)
  from Suc.IH[OF r] tables_get_string[OF g] show ?case by simp
qed

lemma tables_get_macro_loop:
  assumes "get_macro_loop args pos st = Some st'"
  shows "tables st' = tables st"
  using assms
proof (induction rule: get_macro_loop.raw_induct[rotated 1, consumes 1])
  case (1 f args pos st st')
  from 1(2) show ?case
    by (auto simp: Let_def simp del: nth_arg.simps dest!: 1(1) tables_nth_arg
        split: if_splits option.splits)
qed

lemma tables_get_macro_line:
  "get_macro_line st = Some st' \<Longrightarrow> tables st' = tables st"
  by (auto simp: get_macro_line_def Let_def dest!: tables_get_macro_loop
      split: list.splits option.splits if_splits)

lemma tables_get_file_line_from:
  "tables (snd (get_file_line_from bufs st)) = tables st"
  by (induction bufs) (auto simp: Let_def split_beta)

lemma tables_get_file_line:
  "get_file_line st = (r, st') \<Longrightarrow> tables st' = tables st"
  using tables_get_file_line_from[of "case cmdfile st of None \<Rightarrow> [] | Some bufs \<Rightarrow> bufs" st]
  by (simp add: get_file_line_def)

lemma tables_get_next_line:
  "get_next_line st = Some st' \<Longrightarrow> tables st' = tables st"
  by (auto simp: get_next_line_def Let_def
      dest!: tables_get_macro_line tables_edit_line tables_get_file_line
      split: option.splits if_splits prod.splits)

lemma heads_simps [simp]:
  "sym_head (set_head Sym ds st) = ds" "mac_head (set_head Sym ds st) = mac_head st"
  "mac_head (set_head Mac ds st) = ds" "sym_head (set_head Mac ds st) = sym_head st"
  "sym_head (snd (malloc st)) = sym_head st" "mac_head (snd (malloc st)) = mac_head st"
  "line (snd (malloc st)) = line st"
  "sym_head (printf msg st) = sym_head st" "mac_head (printf msg st) = mac_head st"
  by (simp_all add: malloc_def printf_def split: list.splits)

lemma move_to_head_ne: "move_to_head P ds = Some ds' \<Longrightarrow> ds' \<noteq> []"
  by (simp add: move_to_head_Some_hd)

lemma find_define_eff:
  "fst (find_define h pos cnt st) = (move_to_head (same_name (drop pos (line st)) cnt) (get_head h st) \<noteq> None)"
  "snd (find_define h pos cnt st) = set_head h (mvd (same_name (drop pos (line st)) cnt) (get_head h st)) st"
  by (cases h; simp add: find_define_def mvd_def split: option.splits)+

lemma find_del_eff:
  "(if fst (find_define h pos cnt st) then del_define h (snd (find_define h pos cnt st))
    else snd (find_define h pos cnt st))
   = set_head h (rmv (same_name (drop pos (line st)) cnt) (get_head h st)) st"
  by (cases h; simp add: find_define_def rmv_def del_define_def split: option.splits)+

lemma set_head_heads [simp]:
  "get_head h (set_head h ds st) = ds"
  "set_head h ds (set_head h ds' st) = set_head h ds st"
  by (cases h; simp)+

lemma names_set_dline: "names (get_head h (set_dline h ll st)) = names (get_head h st)"
  by (cases h; simp add: set_dline_def names_def split: list.splits)+

lemma other_set_dline [simp]:
  "sym_head (set_dline Mac ll st) = sym_head st" "mac_head (set_dline Sym ll st) = mac_head st"
  "line (set_dline h ll st) = line st"
  by (simp_all add: set_dline_def split: list.splits)

lemma names_del_define: "names (get_head h (del_define h st)) = tl (names (get_head h st))"
  by (simp add: del_define_def names_def map_tl)

lemma other_del_define [simp]:
  "sym_head (del_define Mac st) = sym_head st" "mac_head (del_define Sym st) = mac_head st"
  by (simp_all add: del_define_def)

lemma get_head_malloc [simp]: "get_head h (snd (malloc st)) = get_head h st"
  by (cases h) (simp_all add: malloc_def split: list.splits)

lemma add_define_eff:
  "fst (add_define h pos cnt st) \<Longrightarrow>
     names (get_head h (snd (add_define h pos cnt st))) = take cnt (drop pos (line st)) # names (get_head h st)"
  "\<not> fst (add_define h pos cnt st) \<Longrightarrow> get_head h (snd (add_define h pos cnt st)) = get_head h st"
  "line (snd (add_define h pos cnt st)) = line st"
  by (simp_all add: add_define_def names_def split_beta split: if_splits)

lemma add_define_other [simp]:
  "sym_head (snd (add_define Mac pos cnt st)) = sym_head st"
  "mac_head (snd (add_define Sym pos cnt st)) = mac_head st"
  by (simp_all add: add_define_def split_beta malloc_def split: list.splits)

lemma add_line_eff [simp]:
  "sym_head (snd (add_line pos st)) = sym_head st" "mac_head (snd (add_line pos st)) = mac_head st"
  "line (snd (add_line pos st)) = line st"
  by (simp_all add: add_line_def split_beta)

lemma names_Sym [simp]:
  "names (sym_head (set_dline Sym ll st)) = names (sym_head st)"
  "names (sym_head (del_define Sym st)) = tl (names (sym_head st))"
  "names (mac_head (set_dline Mac ll st)) = names (mac_head st)"
  "names (mac_head (del_define Mac st)) = tl (names (mac_head st))"
  using names_set_dline[of Sym ll st] names_del_define[of Sym st]
    names_set_dline[of Mac ll st] names_del_define[of Mac st] by simp_all

lemma execute_defs_unfold:
  assumes np: "pos \<noteq> length (line st)"
    and nv: "\<not> (skip_nondelim pos st < length (line st) \<and> \<not> isblank (line st ! skip_nondelim pos st))"
    and cnt: "cnt = skip_nondelim pos st - pos"
    and P: "P = same_name (drop pos (line st)) cnt"
    and st1: "st1 = set_head Mac (rmv P (mac_head st)) st"
    and s: "s = find_define Sym pos cnt st1"
    and st2: "st2 = (if fst s \<and> dline (hd (sym_head (snd s))) \<noteq> []
                           then set_dline Sym [] (snd s) else snd s)"
    and dfn: "dfn = skip_blank (skip_nondelim pos st) st2"
    and a: "a = (if \<not> fst s then add_define Sym pos cnt st2 else (True, st2))"
    and ll: "ll = add_line dfn (snd a)"
    and st3: "st3 = set_dline Sym (fst ll) (snd ll)"
  shows "execute_defs pos st =
     (if dfn = length (line st2) then (if fst s then del_define Sym st2 else st2)
      else if \<not> fst a then snd a
      else if fst ll = [] then del_define Sym st3 else st3)"
proof -
  from np have np': "(pos = length (line st)) = False" by simp
  from nv have nv': "(skip_nondelim pos st < length (line st)
      \<and> \<not> isblank (line st ! skip_nondelim pos st)) = False" by simp
  have m: "(if fst (find_define Mac pos cnt st) then del_define Mac (snd (find_define Mac pos cnt st))
            else snd (find_define Mac pos cnt st)) = st1"
    by (simp only: find_del_eff st1 P get_head.simps)
  show ?thesis
    unfolding execute_defs_def Let_def
    apply (simp only: np' nv' if_False cnt[symmetric] m)
    apply (simp only: s[symmetric])
    apply (simp only: st2[symmetric])
    apply (simp only: dfn[symmetric] a[symmetric])
    apply (simp only: ll[symmetric])
    apply (simp only: st3[symmetric])
    done
qed

lemma shape_defs_invalid:
  assumes "pos = length (line st)
    \<or> (skip_nondelim pos st < length (line st) \<and> \<not> isblank (line st ! skip_nondelim pos st))"
  shows "tables (execute_defs pos st) = tables st"
proof (cases "pos = length (line st)")
  case True
  then show ?thesis by (simp add: execute_defs_def)
next
  case False
  with assms have "skip_nondelim pos st < length (line st) \<and> \<not> isblank (line st ! skip_nondelim pos st)"
    by simp
  with False show ?thesis by (simp add: execute_defs_def Let_def tables_def)
qed

lemma shape_defs_valid:
  fixes pos st
  defines "cnt \<equiv> skip_nondelim pos st - pos"
  defines "P \<equiv> same_name (drop pos (line st)) cnt"
  assumes np: "pos \<noteq> length (line st)"
    and nv: "\<not> (skip_nondelim pos st < length (line st) \<and> \<not> isblank (line st ! skip_nondelim pos st))"
  shows "upd P (take cnt (drop pos (line st))) (sym_head st) (sym_head (execute_defs pos st))
       \<and> mac_head (execute_defs pos st) = rmv P (mac_head st)"
proof -
  define st1 where "st1 = set_head Mac (rmv P (mac_head st)) st"
  define s where "s = find_define Sym pos cnt st1"
  define st2 where "st2 = (if fst s \<and> dline (hd (sym_head (snd s))) \<noteq> []
                           then set_dline Sym [] (snd s) else snd s)"
  define dfn where "dfn = skip_blank (skip_nondelim pos st) st2"
  define a where "a = (if \<not> fst s then add_define Sym pos cnt st2 else (True, st2))"
  define ll where "ll = add_line dfn (snd a)"
  define st3 where "st3 = set_dline Sym (fst ll) (snd ll)"
  have c: "cnt = skip_nondelim pos st - pos" and p: "P = same_name (drop pos (line st)) cnt"
    by (simp_all add: cnt_def P_def)
  note e = execute_defs_unfold[OF np nv c p st1_def s_def st2_def dfn_def a_def ll_def st3_def]
  have f1: "sym_head st1 = sym_head st" "mac_head st1 = rmv P (mac_head st)" "line st1 = line st"
    by (simp_all add: st1_def)
  have f2: "fst s = (move_to_head P (sym_head st) \<noteq> None)"
    "sym_head (snd s) = mvd P (sym_head st)" "mac_head (snd s) = rmv P (mac_head st)"
    "line (snd s) = line st"
    using f1 by (simp_all add: s_def find_define_eff P_def)
  have f3: "names (sym_head st2) = names (mvd P (sym_head st))" "mac_head st2 = rmv P (mac_head st)"
    "line st2 = line st"
    using f2 by (simp_all add: st2_def)
  have f3b: "\<not> fst s \<Longrightarrow> sym_head st2 = sym_head st"
    using f2 by (simp add: st2_def mvd_def)
  have f4: "mac_head (snd a) = rmv P (mac_head st)" "line (snd a) = line st"
    "fst s \<Longrightarrow> names (sym_head (snd a)) = names (mvd P (sym_head st))"
    "\<not> fst s \<Longrightarrow> fst a \<Longrightarrow> names (sym_head (snd a)) = take cnt (drop pos (line st)) # names (sym_head st)"
    "\<not> fst s \<Longrightarrow> \<not> fst a \<Longrightarrow> sym_head (snd a) = sym_head st"
    using f3 f3b f2(1) add_define_eff[of Sym pos cnt st2]
    by (auto simp: a_def mvd_def split: option.splits)
  have f5: "names (sym_head st3) = names (sym_head (snd a))" "mac_head st3 = rmv P (mac_head st)"
    using f4 by (simp_all add: st3_def ll_def)
  have nmv: "\<not> fst s \<Longrightarrow> mvd P (sym_head st) = sym_head st"
    using f2(1) by (simp add: mvd_def)
  show ?thesis
    unfolding e upd_def using f2(1) f3 f4 f5 nmv
    by (auto simp: tables_def)
qed

lemma shape_defs:
  fixes pos st
  defines "cnt \<equiv> skip_nondelim pos st - pos"
  defines "P \<equiv> same_name (drop pos (line st)) cnt"
  shows "tables (execute_defs pos st) = tables st
       \<or> (upd P (take cnt (drop pos (line st))) (sym_head st) (sym_head (execute_defs pos st))
          \<and> mac_head (execute_defs pos st) = rmv P (mac_head st))"
  using shape_defs_invalid[of pos st] shape_defs_valid[of pos st] unfolding cnt_def P_def by blast

lemma kc_names: "kc k ds = length (filter (\<lambda>n. nkey n = k) (names ds))"
  by (simp add: kc_def names_def filter_map o_def)

lemma kc_tl: "kc k (tl ds) \<le> kc k ds"
  by (cases ds) (simp_all add: kc_def)

lemma kc_mvd: "kc k (mvd P S) = kc k S"
  by (simp add: mvd_def kc_move_to_head split: option.splits)

lemma kc_rmv_le: "kc k (rmv P M) \<le> kc k M"
proof (cases "move_to_head P M")
  case None
  then show ?thesis by (simp add: rmv_def)
next
  case (Some ds)
  from kc_move_to_head[OF Some, of k] kc_tl[of k ds] Some show ?thesis by (simp add: rmv_def)
qed

lemma kc_rmv_key:
  assumes P: "\<And>d. P d = (nkey (name d) = k)" and le: "kc k M \<le> 1"
  shows "kc k (rmv P M) = 0"
proof (cases "move_to_head P M")
  case None
  from move_to_head_None[OF None] P have "\<forall>d\<in>set M. nkey (name d) \<noteq> k" by simp
  from kc_zero[OF this] None show ?thesis by (simp add: rmv_def)
next
  case (Some ds)
  from move_to_head_Some_hd[OF Some] obtain d t where ds: "ds = d # t" and pd: "P d"
    by (cases ds) auto
  from kc_move_to_head[OF Some, of k] le have "kc k ds \<le> 1" by simp
  with ds pd P have "kc k t = 0" by (simp add: kc_Cons)
  with Some ds show ?thesis by (simp add: rmv_def)
qed

lemma tinv_upd:
  assumes inv: "tinv S M" and P: "\<And>d. P d = (nkey (name d) = nkey nm)"
    and u: "upd P nm S S'"
  shows "tinv S' (rmv P M)"
  unfolding tinv_def
proof
  fix k
  from inv have i: "kc k S + kc k M \<le> 1" unfolding tinv_def by blast
  note r = kc_rmv_le[of k P M]
  show "kc k S' + kc k (rmv P M) \<le> 1"
  proof (cases "move_to_head P S")
    case None
    with u consider "names S' = names S" | "names S' = nm # names S" by (auto simp: upd_def)
    then show ?thesis
    proof cases
      case 1
      then have "kc k S' = kc k S" by (simp add: kc_names)
      with i r show ?thesis by simp
    next
      case 2
      show ?thesis
      proof (cases "nkey nm = k")
        case False
        with 2 have "kc k S' = kc k S" by (simp add: kc_names)
        with i r show ?thesis by simp
      next
        case True
        from move_to_head_None[OF None] P True have "\<forall>d\<in>set S. nkey (name d) \<noteq> k" by simp
        from kc_zero[OF this] have s0: "kc k S = 0" .
        from i have "kc k M \<le> 1" by simp
        from kc_rmv_key[of P k M, OF _ this] P True have "kc k (rmv P M) = 0" by simp
        with 2 True s0 show ?thesis by (simp add: kc_names)
      qed
    qed
  next
    case (Some ds)
    with u consider "names S' = names (mvd P S)" | "names S' = tl (names (mvd P S))"
      by (auto simp: upd_def)
    then show ?thesis
    proof cases
      case 1
      then have "kc k S' = kc k S" using kc_mvd[of k P S] by (simp add: kc_names)
      with i r show ?thesis by simp
    next
      case 2
      then have "names S' = names (tl (mvd P S))" by (simp add: names_def map_tl)
      then have "kc k S' = kc k (tl (mvd P S))" by (simp add: kc_names)
      with kc_tl[of k "mvd P S"] kc_mvd[of k P S] i r show ?thesis by simp
    qed
  qed
qed

lemma tinv_sym: "tinv S M = tinv M S"
  by (simp add: tinv_def add.commute)

lemma length_name_word: "length (take (skip_nondelim pos st - pos) (drop pos (line st))) = skip_nondelim pos st - pos"
proof -
  let ?P = "\<lambda>c. \<not> wcschr DEF_TERM c"
  have "length (takeWhile ?P (drop pos (line st))) \<le> length (drop pos (line st))"
    by (rule length_takeWhile_le)
  then show ?thesis by (simp add: skip_nondelim_def min_absorb2)
qed

lemma same_name_word:
  "same_name (drop pos (line st)) (skip_nondelim pos st - pos) d
     = (nkey (name d) = nkey (take (skip_nondelim pos st - pos) (drop pos (line st))))"
  by (rule same_name_line[OF length_name_word])

lemma one_table_execute_defs: "one_table st \<Longrightarrow> one_table (execute_defs pos st)"
proof -
  assume o: "one_table st"
  then have i: "tinv (sym_head st) (mac_head st)" by (simp add: one_table_tinv)
  from shape_defs[of pos st] show ?thesis
  proof
    assume "tables (execute_defs pos st) = tables st"
    with i show ?thesis by (simp add: one_table_tinv tables_def)
  next
    assume a: "upd (same_name (drop pos (line st)) (skip_nondelim pos st - pos))
        (take (skip_nondelim pos st - pos) (drop pos (line st))) (sym_head st)
        (sym_head (execute_defs pos st)) \<and>
       mac_head (execute_defs pos st) =
       rmv (same_name (drop pos (line st)) (skip_nondelim pos st - pos)) (mac_head st)"
    from tinv_upd[OF i same_name_word, of pos st "sym_head (execute_defs pos st)"] a
    show ?thesis by (simp add: one_table_tinv)
  qed
qed

lemma tables_heads: "tables a = tables b \<Longrightarrow> sym_head a = sym_head b \<and> mac_head a = mac_head b"
  by (simp add: tables_def)

lemma shape_defm_lines:
  assumes "defm_lines first st = Some st'"
  shows "sym_head st' = sym_head st
       \<and> (names (mac_head st') = names (mac_head st) \<or> names (mac_head st') = tl (names (mac_head st)))"
  using assms
proof (induction rule: defm_lines.raw_induct[rotated 1, consumes 1])
  case (1 f first st st')
  define st0 where "st0 = (if kbd st then (write_console DEFM st)\<lparr>show_prompt := False\<rparr> else st)"
  have t0: "tables st0 = tables st" by (simp add: st0_def)
  from 1(2) obtain st1 where g: "get_next_line st0 = Some st1"
    by (auto simp: st0_def split: option.splits)
  from tables_get_next_line[OF g] t0 have t1: "sym_head st1 = sym_head st" "mac_head st1 = mac_head st"
    by (simp_all add: tables_def)
  define pos where "pos = skip_blank 0 st1"
  define e where "e = (skip_nonblank pos st1 - pos = length ENDM
                        \<and> wcsnicmp (drop pos (line st1)) ENDM (length ENDM) = 0)"
  define ll where "ll = add_line 0 st1"
  define st2 where "st2 = set_dline Mac (dline (hd (mac_head (snd ll))) @ fst ll) (snd ll)"
  note b = 1(2)[folded st0_def, unfolded g option.case Let_def, folded pos_def, folded e_def ll_def,
      folded st2_def]
  have r: "(if e then Some (if first then del_define Mac st1 else st1)
       else if fst ll = [] then Some (del_define Mac (snd ll)) else f False st2) = Some st'"
    using b .
  have l: "sym_head (snd ll) = sym_head st" "mac_head (snd ll) = mac_head st"
    using t1 by (simp_all add: ll_def)
  have s2: "sym_head st2 = sym_head st" "names (mac_head st2) = names (mac_head st)"
    using l by (simp_all add: st2_def)
  show ?case
  proof (cases e)
    case True
    with r have "st' = (if first then del_define Mac st1 else st1)" by simp
    then show ?thesis using t1 by (cases first) simp_all
  next
    case False
    show ?thesis
    proof (cases "fst ll = []")
      case True
      with r False have "st' = del_define Mac (snd ll)" by simp
      then show ?thesis using l by simp
    next
      case F2: False
      with r False have "f False st2 = Some st'" by simp
      from 1(1)[OF this] s2 show ?thesis by (auto simp: names_def map_tl)
    qed
  qed
qed

lemma execute_defm_unfold:
  assumes dm: "\<not> def_macro st"
    and st0: "st0 = st\<lparr>def_macro := True\<rparr>"
    and nv: "\<not> (skip_nondelim pos st < length (line st) \<and> \<not> isblank (line st ! skip_nondelim pos st))"
    and cnt: "cnt = skip_nondelim pos st - pos"
    and P: "P = same_name (drop pos (line st)) cnt"
    and st1: "st1 = set_head Sym (rmv P (sym_head st)) st0"
    and m: "m = find_define Mac pos cnt st1"
    and a: "a = (if fst m then (True, set_dline Mac [] (snd m))
                         else add_define Mac pos cnt (snd m))"
    and dfn: "dfn = skip_blank (skip_nondelim pos st) (snd a)"
    and ll: "ll = add_line dfn (snd a)"
    and st3: "st3 = set_dline Mac (fst ll) (snd ll)"
  shows "execute_defm pos st = map_option (\<lambda>s. s\<lparr>def_macro := False\<rparr>)
       (if \<not> fst a then Some (snd a)
        else if dfn \<noteq> length (line (snd a))
        then Some (if fst ll = [] then del_define Mac st3 else st3)
        else defm_lines True (snd a))"
proof -
  have l0: "line st0 = line st" "sym_head st0 = sym_head st" "mac_head st0 = mac_head st"
    by (simp_all add: st0)
  have sk: "skip_nondelim pos st0 = skip_nondelim pos st"
    by (simp add: skip_nondelim_def l0)
  from nv have nv': "(skip_nondelim pos st0 < length (line st0)
      \<and> \<not> isblank (line st0 ! skip_nondelim pos st0)) = False"
    by (simp add: sk l0)
  have dmf: "def_macro st = False" using dm by simp
  have c0: "skip_nondelim pos st0 - pos = cnt" by (simp add: sk cnt)
  have sy: "(if fst (find_define Sym pos cnt st0) then del_define Sym (snd (find_define Sym pos cnt st0))
            else snd (find_define Sym pos cnt st0)) = st1"
    by (simp only: find_del_eff st1 P get_head.simps l0)
  have dfn': "dfn = skip_blank (skip_nondelim pos st0) (snd a)" by (simp add: dfn sk)
  show ?thesis
    unfolding execute_defm_def Let_def
    apply (simp only: dmf if_False st0[symmetric])
    apply (simp only: nv' if_False c0 sy)
    apply (simp only: m[symmetric])
    apply (simp only: a[symmetric])
    apply (simp only: dfn'[symmetric])
    apply (simp only: ll[symmetric])
    apply (simp only: st3[symmetric])
    done
qed

lemma shape_defm_invalid:
  assumes ex: "execute_defm pos st = Some st'"
    and "def_macro st
    \<or> (skip_nondelim pos st < length (line st) \<and> \<not> isblank (line st ! skip_nondelim pos st))"
  shows "tables st' = tables st"
proof (cases "def_macro st")
  case True
  with ex show ?thesis by (simp add: execute_defm_def)
next
  case False
  with assms(2) have "skip_nondelim pos st < length (line st) \<and> \<not> isblank (line st ! skip_nondelim pos st)"
    by simp
  moreover have "skip_nondelim pos (st\<lparr>def_macro := True\<rparr>) = skip_nondelim pos st"
    by (simp add: skip_nondelim_def)
  ultimately show ?thesis using ex False
    by (auto simp add: execute_defm_def Let_def tables_def)
qed

lemma shape_defm_valid:
  fixes pos st
  defines "cnt \<equiv> skip_nondelim pos st - pos"
  defines "P \<equiv> same_name (drop pos (line st)) cnt"
  assumes ex: "execute_defm pos st = Some st'"
    and dm: "\<not> def_macro st"
    and nv: "\<not> (skip_nondelim pos st < length (line st) \<and> \<not> isblank (line st ! skip_nondelim pos st))"
  shows "upd P (take cnt (drop pos (line st))) (mac_head st) (mac_head st')
          \<and> sym_head st' = rmv P (sym_head st)"
proof -
  define st0 where "st0 = st\<lparr>def_macro := True\<rparr>"
  have l0: "line st0 = line st" "sym_head st0 = sym_head st" "mac_head st0 = mac_head st"
    by (simp_all add: st0_def)
  define st1 where "st1 = set_head Sym (rmv P (sym_head st)) st0"
  define m where "m = find_define Mac pos cnt st1"
  define a where "a = (if fst m then (True, set_dline Mac [] (snd m))
                       else add_define Mac pos cnt (snd m))"
  define dfn where "dfn = skip_blank (skip_nondelim pos st) (snd a)"
  define ll where "ll = add_line dfn (snd a)"
  define st3 where "st3 = set_dline Mac (fst ll) (snd ll)"
  have c: "cnt = skip_nondelim pos st - pos" and p: "P = same_name (drop pos (line st)) cnt"
    by (simp_all add: cnt_def P_def)
  note e = execute_defm_unfold[OF dm st0_def nv c p st1_def m_def a_def dfn_def ll_def st3_def]
  have f1: "sym_head st1 = rmv P (sym_head st)" "mac_head st1 = mac_head st" "line st1 = line st"
    by (simp_all add: st1_def l0)
  have f2: "fst m = (move_to_head P (mac_head st) \<noteq> None)"
    "mac_head (snd m) = mvd P (mac_head st)" "sym_head (snd m) = rmv P (sym_head st)"
    "line (snd m) = line st"
    using f1 by (simp_all add: m_def find_define_eff P_def)
  have nmv: "\<not> fst m \<Longrightarrow> mvd P (mac_head st) = mac_head st"
    using f2(1) by (simp add: mvd_def)
  have f4: "sym_head (snd a) = rmv P (sym_head st)"
    "fst m \<Longrightarrow> names (mac_head (snd a)) = names (mvd P (mac_head st))"
    "\<not> fst m \<Longrightarrow> fst a \<Longrightarrow> names (mac_head (snd a)) = take cnt (drop pos (line st)) # names (mac_head st)"
    "\<not> fst m \<Longrightarrow> \<not> fst a \<Longrightarrow> mac_head (snd a) = mac_head st"
    using f2 nmv add_define_eff[of Mac pos cnt "snd m"]
    by (auto simp: a_def)
  have f5: "names (mac_head st3) = names (mac_head (snd a))" "sym_head st3 = rmv P (sym_head st)"
    using f4 by (simp_all add: st3_def ll_def)
  from ex obtain s2 where
    x: "(if \<not> fst a then Some (snd a)
      else if dfn \<noteq> length (line (snd a))
      then Some (if fst ll = [] then del_define Mac st3 else st3)
      else defm_lines True (snd a)) = Some s2"
    and st': "st' = s2\<lparr>def_macro := False\<rparr>"
    unfolding e by auto
  have hs: "sym_head st' = sym_head s2" "mac_head st' = mac_head s2" by (simp_all add: st')
  have fa: "fst m \<Longrightarrow> fst a" by (simp add: a_def)
  have k: "sym_head s2 = rmv P (sym_head st)
      \<and> (if fst a then names (mac_head s2) = names (mac_head (snd a))
                        \<or> names (mac_head s2) = tl (names (mac_head (snd a)))
          else mac_head s2 = mac_head st)"
  proof (cases "fst a")
    case False
    with x have "s2 = snd a" by simp
    with False show ?thesis using f4 fa by auto
  next
    case True
    show ?thesis
    proof (cases "dfn \<noteq> length (line (snd a))")
      case d: True
      with x True have "s2 = (if fst ll = [] then del_define Mac st3 else st3)" by simp
      with True show ?thesis using f5 by (cases "fst ll = []") simp_all
    next
      case d: False
      with x True have "defm_lines True (snd a) = Some s2" by simp
      from shape_defm_lines[OF this] True f4(1) show ?thesis by simp
    qed
  qed
  show ?thesis
  proof (cases "fst a")
    case False
    with fa have nm: "\<not> fst m" by auto
    from k False have "mac_head s2 = mac_head st" "sym_head s2 = rmv P (sym_head st)" by simp_all
    with nm f2(1) show ?thesis unfolding upd_def hs by simp
  next
    case True
    with k have n: "names (mac_head s2) = names (mac_head (snd a))
                        \<or> names (mac_head s2) = tl (names (mac_head (snd a)))"
      and sy: "sym_head s2 = rmv P (sym_head st)" by simp_all
    show ?thesis
    proof (cases "fst m")
      case m: True
      with f2(1) have "move_to_head P (mac_head st) \<noteq> None" by simp
      with n f4(2)[OF m] sy show ?thesis unfolding upd_def hs by auto
    next
      case m: False
      with f2(1) have "move_to_head P (mac_head st) = None" by simp
      with n f4(3)[OF m True] sy show ?thesis unfolding upd_def hs by auto
    qed
  qed
qed

lemma shape_defm:
  assumes ex: "execute_defm pos st = Some st'"
  shows "tables st' = tables st
       \<or> (upd (same_name (drop pos (line st)) (skip_nondelim pos st - pos))
              (take (skip_nondelim pos st - pos) (drop pos (line st))) (mac_head st) (mac_head st')
          \<and> sym_head st' = rmv (same_name (drop pos (line st)) (skip_nondelim pos st - pos)) (sym_head st))"
  using shape_defm_invalid[OF ex] shape_defm_valid[OF ex] by blast

lemma one_table_execute_defm:
  assumes o: "one_table st" and ex: "execute_defm pos st = Some st'"
  shows "one_table st'"
proof -
  from o have i: "tinv (mac_head st) (sym_head st)" by (simp add: one_table_tinv tinv_sym)
  from shape_defm[OF ex] show ?thesis
  proof
    assume "tables st' = tables st"
    with o show ?thesis by (simp add: one_table_tinv tables_def)
  next
    assume a: "upd (same_name (drop pos (line st)) (skip_nondelim pos st - pos))
        (take (skip_nondelim pos st - pos) (drop pos (line st))) (mac_head st) (mac_head st') \<and>
       sym_head st' = rmv (same_name (drop pos (line st)) (skip_nondelim pos st - pos)) (sym_head st)"
    from tinv_upd[OF i same_name_word, of pos st "mac_head st'"] a
    show ?thesis by (simp add: one_table_tinv tinv_sym)
  qed
qed

lemma heap_simps [simp]:
  "heap (set_head h ds st) = heap st"
  "heap (snd (find_define h pos cnt st)) = heap st"
  "heap (set_dline h ll st) = heap st"
  by (cases h; simp add: find_define_def set_dline_def split: option.splits list.splits)+

lemma malloc_heap_eq: "heap a = heap b \<Longrightarrow> fst (malloc a) = fst (malloc b)"
  by (simp add: malloc_def split: list.splits)

lemma mvd_find:
  "List.find P ds = Some d \<Longrightarrow> mvd P ds = d # tl (mvd P ds) \<and> move_to_head P ds \<noteq> None
     \<and> length (mvd P ds) = length ds"
proof -
  assume f: "List.find P ds = Some d"
  let ?R = "\<lambda>d. \<not> P d"
  from f obtain rest where dw: "dropWhile ?R ds = d # rest"
    by (auto simp: find_dropWhile split: list.splits)
  have "length ds = length (takeWhile ?R ds @ dropWhile ?R ds)" by simp
  also have "\<dots> = Suc (length (takeWhile ?R ds) + length rest)" unfolding dw by simp
  finally have len: "length ds = Suc (length (takeWhile ?R ds) + length rest)" .
  have "move_to_head P ds = Some (d # takeWhile ?R ds @ rest)"
    by (simp add: move_to_head_def dw)
  with len show ?thesis by (simp add: mvd_def)
qed

lemma sym_set_dline:
  "sym_head st = d # ds \<Longrightarrow> sym_head (set_dline Sym ll st) = d\<lparr>dline := ll\<rparr> # ds"
  "mac_head st = d # ds \<Longrightarrow> mac_head (set_dline Mac ll st) = d\<lparr>dline := ll\<rparr> # ds"
  by (simp_all add: set_dline_def)

lemma redefine_defs:
  fixes pos st
  defines "cnt \<equiv> skip_nondelim pos st - pos"
  defines "P \<equiv> same_name (drop pos (line st)) cnt"
  defines "dfn \<equiv> skip_blank (skip_nondelim pos st) st"
  assumes np: "pos \<noteq> length (line st)"
    and nv: "\<not> (skip_nondelim pos st < length (line st) \<and> \<not> isblank (line st ! skip_nondelim pos st))"
    and found: "List.find P (sym_head st) = Some d"
    and nonempty: "dfn \<noteq> length (line st)"
    and mem: "fst (malloc st)"
  shows "sym_head (execute_defs pos st) = d\<lparr>dline := [drop dfn (line st)]\<rparr> # tl (mvd P (sym_head st))"
proof -
  define st1 where "st1 = set_head Mac (rmv P (mac_head st)) st"
  define s where "s = find_define Sym pos cnt st1"
  define st2 where "st2 = (if fst s \<and> dline (hd (sym_head (snd s))) \<noteq> []
                           then set_dline Sym [] (snd s) else snd s)"
  define dfn2 where "dfn2 = skip_blank (skip_nondelim pos st) st2"
  define a where "a = (if \<not> fst s then add_define Sym pos cnt st2 else (True, st2))"
  define ll where "ll = add_line dfn2 (snd a)"
  define st3 where "st3 = set_dline Sym (fst ll) (snd ll)"
  have c: "cnt = skip_nondelim pos st - pos" and p: "P = same_name (drop pos (line st)) cnt"
    by (simp_all add: cnt_def P_def)
  note e = execute_defs_unfold[OF np nv c p st1_def s_def st2_def dfn2_def a_def ll_def st3_def]
  note mv = mvd_find[OF found]
  have f1: "sym_head st1 = sym_head st" "line st1 = line st" "heap st1 = heap st"
    by (simp_all add: st1_def)
  have f2: "fst s" "sym_head (snd s) = d # tl (mvd P (sym_head st))" "line (snd s) = line st"
    "heap (snd s) = heap st"
    using f1 mv by (simp_all add: s_def find_define_eff P_def)
  have f3: "\<exists>d0. sym_head st2 = d0 # tl (mvd P (sym_head st)) \<and> d0\<lparr>dline := []\<rparr> = d\<lparr>dline := []\<rparr>"
    "line st2 = line st" "heap st2 = heap st"
    using f2 by (auto simp: st2_def sym_set_dline)
  have a': "a = (True, st2)" using f2(1) by (simp add: a_def)
  have d2: "dfn2 = dfn" by (simp add: dfn2_def dfn_def skip_blank_def f3)
  have ml: "fst (malloc st2)" using malloc_heap_eq[OF f3(3)] mem by simp
  have l: "fst ll = [drop dfn (line st)]" "sym_head (snd ll) = sym_head st2"
    using ml f3 by (simp_all add: ll_def a' d2 add_line_def split_beta)
  from f3(1) obtain d0 where d0: "sym_head st2 = d0 # tl (mvd P (sym_head st))"
    "d0\<lparr>dline := []\<rparr> = d\<lparr>dline := []\<rparr>" by blast
  have "d0\<lparr>dline := [drop dfn (line st)]\<rparr> = (d0\<lparr>dline := []\<rparr>)\<lparr>dline := [drop dfn (line st)]\<rparr>" by simp
  also have "\<dots> = d\<lparr>dline := [drop dfn (line st)]\<rparr>" by (simp add: d0(2))
  finally have dd: "d0\<lparr>dline := [drop dfn (line st)]\<rparr> = d\<lparr>dline := [drop dfn (line st)]\<rparr>" .
  have s3: "sym_head st3 = d\<lparr>dline := [drop dfn (line st)]\<rparr> # tl (mvd P (sym_head st))"
    using l d0(1) dd by (simp add: st3_def sym_set_dline)
  show ?thesis unfolding e using nonempty d2 f3(2) a' l(1) s3 by simp
qed

lemma redefine_defm:
  fixes pos st
  defines "cnt \<equiv> skip_nondelim pos st - pos"
  defines "P \<equiv> same_name (drop pos (line st)) cnt"
  defines "dfn \<equiv> skip_blank (skip_nondelim pos st) st"
  assumes dm: "\<not> def_macro st"
    and nv: "\<not> (skip_nondelim pos st < length (line st) \<and> \<not> isblank (line st ! skip_nondelim pos st))"
    and found: "List.find P (mac_head st) = Some d"
    and nonempty: "dfn \<noteq> length (line st)"
    and mem: "fst (malloc st)"
  shows "map_option mac_head (execute_defm pos st)
           = Some (d\<lparr>dline := [drop dfn (line st)]\<rparr> # tl (mvd P (mac_head st)))"
proof -
  define st0 where "st0 = st\<lparr>def_macro := True\<rparr>"
  have l0: "line st0 = line st" "sym_head st0 = sym_head st" "mac_head st0 = mac_head st"
    "heap st0 = heap st"
    by (simp_all add: st0_def)
  define st1 where "st1 = set_head Sym (rmv P (sym_head st)) st0"
  define m where "m = find_define Mac pos cnt st1"
  define a where "a = (if fst m then (True, set_dline Mac [] (snd m))
                       else add_define Mac pos cnt (snd m))"
  define dfn2 where "dfn2 = skip_blank (skip_nondelim pos st) (snd a)"
  define ll where "ll = add_line dfn2 (snd a)"
  define st3 where "st3 = set_dline Mac (fst ll) (snd ll)"
  have c: "cnt = skip_nondelim pos st - pos" and p: "P = same_name (drop pos (line st)) cnt"
    by (simp_all add: cnt_def P_def)
  note e = execute_defm_unfold[OF dm st0_def nv c p st1_def m_def a_def dfn2_def ll_def st3_def]
  note mv = mvd_find[OF found]
  have f1: "mac_head st1 = mac_head st" "line st1 = line st" "heap st1 = heap st"
    by (simp_all add: st1_def l0)
  have f2: "fst m" "mac_head (snd m) = d # tl (mvd P (mac_head st))" "line (snd m) = line st"
    "heap (snd m) = heap st"
    using f1 mv by (simp_all add: m_def find_define_eff P_def)
  have a': "fst a" "mac_head (snd a) = d\<lparr>dline := []\<rparr> # tl (mvd P (mac_head st))"
    "line (snd a) = line st" "heap (snd a) = heap st"
    using f2 by (simp_all add: a_def sym_set_dline)
  have d2: "dfn2 = dfn" by (simp add: dfn2_def dfn_def skip_blank_def a')
  have ml: "fst (malloc (snd a))" using malloc_heap_eq[OF a'(4)] mem by simp
  have l: "fst ll = [drop dfn (line st)]" "mac_head (snd ll) = mac_head (snd a)"
    using ml a' by (simp_all add: ll_def d2 add_line_def split_beta)
  have s3: "mac_head st3 = d\<lparr>dline := [drop dfn (line st)]\<rparr> # tl (mvd P (mac_head st))"
    using l a'(2) by (simp add: st3_def sym_set_dline)
  show ?thesis unfolding e using nonempty d2 a' l(1) s3 by simp
qed

lemma same_name_def_name:
  "same_name (drop pos (line st)) (skip_nondelim pos st - pos)
     = same_name (def_name pos st) (length (def_name pos st))"
proof (rule ext)
  fix d
  have l: "length (def_name pos st) = skip_nondelim pos st - pos"
    by (simp only: def_name_def length_name_word)
  show "same_name (drop pos (line st)) (skip_nondelim pos st - pos) d
          = same_name (def_name pos st) (length (def_name pos st)) d"
    by (simp only: same_name_word same_name_nkey[OF refl] def_name_def[symmetric])
qed

lemma in_table_rmv:
  assumes "tinv S M"
  shows "in_table (def_name pos st) (rmv (same_name (drop pos (line st)) (skip_nondelim pos st - pos)) M) = 0"
proof -
  from assms have "kc (nkey (def_name pos st)) M \<le> 1" unfolding tinv_def
    by (metis add_leD2)
  from kc_rmv_key[of "same_name (drop pos (line st)) (skip_nondelim pos st - pos)"
      "nkey (def_name pos st)" M, OF _ this]
  show ?thesis by (simp add: in_table_kc same_name_word def_name_def)
qed

lemma one_table_run_defs:
  "one_table st \<Longrightarrow> run_defs cs st = Some st' \<Longrightarrow> one_table st'"
proof (induction cs arbitrary: st)
  case Nil
  then show ?case by simp
next
  case (Cons c cs)
  have o: "one_table (st\<lparr>line := l\<rparr>)" for l
    using Cons.prems(1) by (simp add: one_table_def)
  show ?case
  proof (cases c)
    case (Defs pos l)
    with Cons.prems(2) have "run_defs cs (execute_defs pos (st\<lparr>line := l\<rparr>)) = Some st'" by simp
    from Cons.IH[OF one_table_execute_defs[OF o] this] show ?thesis .
  next
    case (Defm pos l)
    with Cons.prems(2) obtain st1 where e: "execute_defm pos (st\<lparr>line := l\<rparr>) = Some st1"
      and r: "run_defs cs st1 = Some st'"
      by (auto split: option.splits)
    from Cons.IH[OF one_table_execute_defm[OF o e] r] show ?thesis .
  qed
qed

lemma def_text_empty:
  "pos \<le> length (line st) \<Longrightarrow>
     (def_text pos st = []) = (skip_blank (skip_nondelim pos st) st = length (line st))"
proof -
  assume p: "pos \<le> length (line st)"
  have a: "length (takeWhile P (drop n (line st))) \<le> length (line st) - n" for P n
    using length_takeWhile_le[of P "drop n (line st)"] by simp
  have e: "skip_nondelim pos st \<le> length (line st)"
    using a[of "\<lambda>c. \<not> wcschr DEF_TERM c" pos] p by (simp add: skip_nondelim_def)
  have "skip_blank (skip_nondelim pos st) st \<le> length (line st)"
    using a[of isblank "skip_nondelim pos st"] e by (simp add: skip_blank_def)
  then show ?thesis by (auto simp: def_text_def)
qed

lemma in_table_hd:
  assumes "ds \<noteq> []" and "same_name n (length n) (hd ds)"
  shows "1 \<le> in_table n ds"
  using assms by (cases ds) (simp_all add: in_table_def)

lemma find_same_name: "List.find P ds = Some d \<Longrightarrow> P d"
  by (induction ds) (auto split: if_splits)



end
